theory Spec2Isabelle
  imports Main
begin

section \<open>The C+ to C++98 converter (C+.cpp): data model\<close>

text \<open>
  A shallow embedding of \<^verbatim>\<open>src/C+.cpp\<close>. Byte strings are \<open>string\<close>
  (lists of 8-bit characters); \<open>std::vector<Token>\<close> is a list that is
  read and edited by index; \<open>std::map<std::string, VarInfo>\<close> is a partial
  function; \<open>std::set<std::string>\<close> is a set. Line and column counters,
  pointer levels and array ranks are natural numbers (the source never lets
  them go negative); scope identifiers are integers because the root's parent
  is the sentinel \<open>-1\<close>.
\<close>

datatype token_type =
  Identifier | Number | StringLit | Keyword | Operator | Punct | Preprocessor | Unknown

record token =
  ttype :: token_type
  ttext :: string
  tline :: nat
  tcol :: nat
  tscope_id :: int

record scope =
  sid :: int
  parent :: int
  kind :: string
  sname :: string

record var_info =
  pointer_level :: nat
  array_rank :: nat

record param =
  pname :: string
  pstars :: nat

text \<open>The only fatal error: \<open>std::exit(2)\<close> in the lexer, with the line and column
  of the diagnostic.\<close>

datatype error = Arrow_Not_Allowed nat nat

definition exit_code :: "error \<Rightarrow> nat" where
  "exit_code e = (case e of Arrow_Not_Allowed l c \<Rightarrow> 2)"

abbreviation LF :: char where "LF \<equiv> CHR 0x0A"
abbreviation CR :: char where "CR \<equiv> CHR 0x0D"
abbreviation BSL :: char where "BSL \<equiv> CHR 0x5C"
abbreviation DQ :: char where "DQ \<equiv> CHR 0x22"

definition mk_token :: "token_type \<Rightarrow> string \<Rightarrow> nat \<Rightarrow> nat \<Rightarrow> token" where
  "mk_token ty txt l c = \<lparr>ttype = ty, ttext = txt, tline = l, tcol = c, tscope_id = 0\<rparr>"

section \<open>Line normalizer (preprocess_physical_lines)\<close>

text \<open>First loop of \<open>preprocess_physical_lines\<close>: a CR directly before LF is
  dropped, any other CR becomes LF, every other byte is copied.\<close>

fun crlf_to_lf :: "string \<Rightarrow> string" where
  "crlf_to_lf [] = []"
| "crlf_to_lf (c # cs) =
     (if c = CR then
        (if cs \<noteq> [] \<and> hd cs = LF then crlf_to_lf cs else LF # crlf_to_lf cs)
      else c # crlf_to_lf cs)"

text \<open>Second loop: a backslash directly before LF is dropped together with
  that LF (\<open>++i; continue\<close>), every other byte is copied.\<close>

fun remove_continuations :: "string \<Rightarrow> string" where
  "remove_continuations [] = []"
| "remove_continuations [c] = [c]"
| "remove_continuations (c # d # cs) =
     (if c = BSL \<and> d = LF then remove_continuations cs
      else c # remove_continuations (d # cs))"

definition preprocess_physical_lines :: "string \<Rightarrow> string" where
  "preprocess_physical_lines s = remove_continuations (crlf_to_lf s)"

text \<open>Whether a string holds a backslash directly before LF, and whether it
  holds two adjacent backslashes.\<close>

fun has_bsl_lf :: "string \<Rightarrow> bool" where
  "has_bsl_lf (c # d # cs) = ((c = BSL \<and> d = LF) \<or> has_bsl_lf (d # cs))"
| "has_bsl_lf cs = False"

fun has_bsl_bsl :: "string \<Rightarrow> bool" where
  "has_bsl_bsl (c # d # cs) = ((c = BSL \<and> d = BSL) \<or> has_bsl_bsl (d # cs))"
| "has_bsl_bsl cs = False"

section \<open>Lexer\<close>

text \<open>Character classes of the C locale, as \<open>std::isspace\<close>, \<open>std::isdigit\<close>,
  \<open>std::isalpha\<close> and \<open>std::isalnum\<close> compute them on an unsigned char.\<close>

definition isspace :: "char \<Rightarrow> bool" where
  "isspace c = (c \<in> set [CHR '' '', CHR 0x09, CHR 0x0A, CHR 0x0B, CHR 0x0C, CHR 0x0D])"

definition isdigit :: "char \<Rightarrow> bool" where
  "isdigit c = (c \<in> set ''0123456789'')"

definition isalpha :: "char \<Rightarrow> bool" where
  "isalpha c = (c \<in> set ''abcdefghijklmnopqrstuvwxyzABCDEFGHIJKLMNOPQRSTUVWXYZ'')"

definition isIdentStart :: "char \<Rightarrow> bool" where
  "isIdentStart c = (isalpha c \<or> c = CHR ''_'')"

definition isIdentChar :: "char \<Rightarrow> bool" where
  "isIdentChar c = (isalpha c \<or> isdigit c \<or> c = CHR ''_'')"

definition make_keywords :: "string set" where
  "make_keywords = set [''auto'', ''break'', ''case'', ''char'', ''const'',
     ''continue'', ''default'', ''do'', ''double'', ''else'',
     ''enum'', ''extern'', ''float'', ''for'', ''goto'',
     ''if'', ''inline'', ''int'', ''long'', ''register'',
     ''return'', ''short'', ''signed'', ''sizeof'', ''static'',
     ''struct'', ''switch'', ''typedef'', ''union'', ''unsigned'',
     ''void'', ''volatile'', ''while'', ''bool'']"

text \<open>\<open>std::strchr(ops, c) != 0\<close> also holds for the terminating NUL of \<open>ops\<close>.\<close>

definition is_op_char :: "char \<Rightarrow> bool" where
  "is_op_char c = (c \<in> set ''+-*/%=&|!<>^~?:'' \<or> c = CHR 0x00)"

definition is_punct_char :: "char \<Rightarrow> bool" where
  "is_punct_char c = (c \<in> set ''(){}[];,.'')"

definition two_char_ops :: "string list" where
  "two_char_ops = [''++'', ''--'', ''=='', ''!='', ''>='', ''<='', ''+='', ''-='',
     ''*='', ''/='', ''&&'', ''||'', ''&='', ''|='', ''^='', ''<<'', ''>>'']"

text \<open>The body of a block comment, entered after \<open>/*\<close>: the loop
  \<open>while (i + 1 < src.size())\<close> needs two characters to go on, so an unterminated
  comment leaves the last character of the input to the main loop. The result
  is the remaining input with the updated line and column.\<close>

fun skip_block_comment :: "string \<Rightarrow> nat \<Rightarrow> nat \<Rightarrow> string \<times> nat \<times> nat" where
  "skip_block_comment (c # d # cs) l col =
     (if c = LF then skip_block_comment (d # cs) (l + 1) 1
      else if c = CHR ''*'' \<and> d = CHR ''/'' then (cs, l, col + 2)
      else skip_block_comment (d # cs) l (col + 1))"
| "skip_block_comment cs l col = (cs, l, col)"

text \<open>The body of a string literal, entered after the opening quote: the
  remaining input after the literal, with the line and column. A backslash
  skips the next character; the loop ends after the closing quote or at the
  end of the input.\<close>

fun scan_string :: "string \<Rightarrow> nat \<Rightarrow> nat \<Rightarrow> string \<times> nat \<times> nat" where
  "scan_string [] l col = ([], l, col)"
| "scan_string (d # cs) l col =
     (if d = BSL then
        (case cs of [] \<Rightarrow> ([], l, col + 1) | e # ds \<Rightarrow> scan_string ds l (col + 2))
      else if d = DQ then (cs, l, col + 1)
      else if d = LF then scan_string cs (l + 1) 1
      else scan_string cs l (col + 1))"

text \<open>A number: digits with at most one dot. The remaining input after it.\<close>

fun scan_number :: "string \<Rightarrow> bool \<Rightarrow> string" where
  "scan_number [] dot = []"
| "scan_number (d # cs) dot =
     (if isdigit d then scan_number cs dot
      else if d = CHR ''.'' \<and> \<not> dot then scan_number cs True
      else d # cs)"

text \<open>\<open>src.substr(s, i - s)\<close>: the characters of \<open>src\<close> consumed to reach \<open>rest\<close>.\<close>

definition consumed :: "string \<Rightarrow> string \<Rightarrow> string" where
  "consumed src rest = take (length src - length rest) src"

lemma skip_block_comment_length:
  "length (fst (skip_block_comment cs l col)) \<le> length cs"
  by (induction cs l col rule: skip_block_comment.induct) auto

lemma scan_string_length:
  "length (fst (scan_string cs l col)) \<le> length cs"
proof (induction cs l col rule: scan_string.induct)
  case (1 l col)
  show ?case by simp
next
  case (2 d cs l col)
  show ?case
  proof (cases "d = BSL")
    case True
    with 2 show ?thesis by (cases cs) auto
  next
    case False
    with 2 show ?thesis by auto
  qed
qed

lemma scan_number_length:
  "length (scan_number cs dot) \<le> length cs"
  by (induction cs dot rule: scan_number.induct) auto

text \<open>One iteration of the main loop of \<open>lex\<close> on the non-empty remaining
  input \<open>c # cs\<close>: either the call of \<open>std::exit(2)\<close> (\<open>Inl\<close>), or the tokens
  pushed by this iteration (none for white space and comments), the remaining
  input, and the line and column counters.\<close>

definition lex_step ::
  "char \<Rightarrow> string \<Rightarrow> nat \<Rightarrow> nat \<Rightarrow> error + (token list \<times> string \<times> nat \<times> nat)" where
  "lex_step c cs l col =
     (if c = LF then Inr ([], cs, l + 1, 1)
      else if isspace c then Inr ([], cs, l, col + 1)
      else if c = CHR ''#'' then
        Inr ([mk_token Preprocessor (c # takeWhile (\<lambda>x. x \<noteq> LF) cs) l col],
             dropWhile (\<lambda>x. x \<noteq> LF) cs, l,
             col + 1 + length (takeWhile (\<lambda>x. x \<noteq> LF) cs))
      else if c = CHR ''/'' \<and> cs \<noteq> [] \<and> hd cs = CHR ''/'' then
        Inr ([], dropWhile (\<lambda>x. x \<noteq> LF) (tl cs), l,
             col + 2 + length (takeWhile (\<lambda>x. x \<noteq> LF) (tl cs)))
      else if c = CHR ''/'' \<and> cs \<noteq> [] \<and> hd cs = CHR ''*'' then
        Inr ([], skip_block_comment (tl cs) l (col + 2))
      else if c = DQ then
        (case scan_string cs l (col + 1) of
           (rest, l', col') \<Rightarrow>
             Inr ([mk_token StringLit (c # consumed cs rest) l' col], rest, l', col'))
      else if isdigit c then
        Inr ([mk_token Number (c # consumed cs (scan_number cs False)) l col],
             scan_number cs False, l,
             col + 1 + length (consumed cs (scan_number cs False)))
      else if isIdentStart c then
        Inr ([mk_token
                (if (c # takeWhile isIdentChar cs) \<in> make_keywords
                 then Keyword else Identifier)
                (c # takeWhile isIdentChar cs) l col],
             dropWhile isIdentChar cs, l,
             col + 1 + length (takeWhile isIdentChar cs))
      else if is_op_char c then
        (if cs \<noteq> [] \<and> [c, hd cs] = ''->'' then Inl (Arrow_Not_Allowed l col)
         else if cs \<noteq> [] \<and> [c, hd cs] \<in> set two_char_ops then
           Inr ([mk_token Operator [c, hd cs] l col], tl cs, l, col + 2)
         else Inr ([mk_token Operator [c] l col], cs, l, col + 1))
      else if is_punct_char c then Inr ([mk_token Punct [c] l col], cs, l, col + 1)
      else Inr ([mk_token Unknown [c] l col], cs, l, col + 1))"

lemma lex_step_length:
  assumes "lex_step c cs l col = Inr (ts, rest, l', col')"
  shows "length rest \<le> length cs"
proof -
  have a: "length (dropWhile P xs) \<le> length xs" for P and xs :: string
    by (rule length_dropWhile_le)
  have b: "length (dropWhile P (tl xs)) \<le> length xs" for P and xs :: string
    using length_dropWhile_le [of P "tl xs"] by simp
  have c: "length (fst (skip_block_comment (tl cs) l (col + 2))) \<le> length cs"
    using skip_block_comment_length [of "tl cs" l "col + 2"] by simp
  have d: "length (fst (scan_string cs l (col + 1))) \<le> length cs"
    by (rule scan_string_length)
  have e: "length (scan_number cs False) \<le> length cs"
    by (rule scan_number_length)
  from assms show ?thesis
    unfolding lex_step_def
    using a [of _ cs] b [of _ cs] c d e
    by (auto split: if_splits prod.splits)
qed

text \<open>The main loop of \<open>lex\<close>, with the tokens pushed so far.\<close>

function lex_loop :: "string \<Rightarrow> nat \<Rightarrow> nat \<Rightarrow> token list \<Rightarrow> error + token list" where
  "lex_loop [] l col out = Inr out"
| "lex_loop (c # cs) l col out =
     (case lex_step c cs l col of
        Inl e \<Rightarrow> Inl e
      | Inr (ts, rest, l', col') \<Rightarrow> lex_loop rest l' col' (out @ ts))"
  by pat_completeness auto
termination
proof (relation "measure (\<lambda>(s, l, col, out). length s)", goal_cases)
  case 1
  show ?case by simp
next
  case (2 c cs l col out x ts y rest z l' col')
  then have "lex_step c cs l col = Inr (ts, rest, l', col')" by simp
  from lex_step_length [OF this] show ?case by simp
qed

definition lex :: "string \<Rightarrow> error + token list" where
  "lex src = lex_loop src 1 1 []"

section \<open>Token helpers\<close>

text \<open>\<open>TKIs\<close> with its optional text argument. Every caller passes an index that is
  not negative, so indices are natural numbers and only the upper bound is
  checked.\<close>

definition TKIs :: "token list \<Rightarrow> nat \<Rightarrow> token_type \<Rightarrow> string option \<Rightarrow> bool" where
  "TKIs v i t txt =
     (if i \<ge> length v then False
      else if ttype (v ! i) \<noteq> t then False
      else (case txt of Some x \<Rightarrow> ttext (v ! i) = x | None \<Rightarrow> True))"

definition is_kw :: "token list \<Rightarrow> nat \<Rightarrow> string \<Rightarrow> bool" where
  "is_kw v i k = TKIs v i Keyword (Some k)"

definition is_p :: "token list \<Rightarrow> nat \<Rightarrow> string \<Rightarrow> bool" where
  "is_p v i p = TKIs v i Punct (Some p)"

definition is_op :: "token list \<Rightarrow> nat \<Rightarrow> string \<Rightarrow> bool" where
  "is_op v i o' = TKIs v i Operator (Some o')"

definition builtin_types :: "string set" where
  "builtin_types = set [''void'', ''char'', ''short'', ''int'', ''long'',
     ''float'', ''double'', ''signed'', ''unsigned'', ''bool'']"

text \<open>\<open>v.insert(v.begin() + i, x)\<close>.\<close>

definition insert_at :: "'a list \<Rightarrow> nat \<Rightarrow> 'a \<Rightarrow> 'a list" where
  "insert_at xs i x = take i xs @ x # drop i xs"

lemma length_insert_at [simp]: "length (insert_at xs i x) = Suc (length xs)"
  by (simp add: insert_at_def)

text \<open>The loop \<open>while (j < lim && P(j)) ++j;\<close>, which the source writes out at
  every use: the final value of \<open>j\<close>.\<close>

function skip_while :: "(nat \<Rightarrow> bool) \<Rightarrow> nat \<Rightarrow> nat \<Rightarrow> nat" where
  "skip_while P lim j = (if j < lim \<and> P j then skip_while P lim (Suc j) else j)"
  by pat_completeness auto
termination
  by (relation "measure (\<lambda>(P, lim, j). lim - j)") auto

declare skip_while.simps [simp del]

lemma skip_while_ge: "j \<le> skip_while P lim j"
proof (induction P lim j rule: skip_while.induct)
  case (1 P lim j)
  then show ?case by (subst skip_while.simps) (auto intro: Suc_leD)
qed

lemma skip_while_gt: "j < lim \<Longrightarrow> P j \<Longrightarrow> j < skip_while P lim j"
  using skip_while_ge [of "Suc j" P lim] by (subst skip_while.simps) simp

lemma skip_while_le: "j \<le> lim \<Longrightarrow> skip_while P lim j \<le> lim"
proof (induction P lim j rule: skip_while.induct)
  case (1 P lim j)
  then show ?case by (subst skip_while.simps) auto
qed

text \<open>The bracket matching loop
  \<open>for (; k < n; ++k) { if (open) depth++; else if (close) { depth--; if (depth == 0) break; } }\<close>
  of \<open>looks_like_func_signature\<close> and \<open>rewrite_member_chains\<close>: the final value of
  \<open>k\<close>, which is \<open>n\<close> when no closing token brings the depth back to zero.\<close>

function find_close :: "token list \<Rightarrow> string \<Rightarrow> string \<Rightarrow> nat \<Rightarrow> int \<Rightarrow> nat" where
  "find_close v opn cls k depth =
     (if k \<ge> length v then k
      else if is_p v k opn then find_close v opn cls (Suc k) (depth + 1)
      else if is_p v k cls then
        (if depth - 1 = 0 then k else find_close v opn cls (Suc k) (depth - 1))
      else find_close v opn cls (Suc k) depth)"
  by pat_completeness auto
termination
  by (relation "measure (\<lambda>(v, opn, cls, k, depth). length v - k)") auto

declare find_close.simps [simp del]

lemma find_close_ge: "k \<le> find_close v opn cls k depth"
proof (induction v opn cls k depth rule: find_close.induct)
  case (1 v opn cls k depth)
  then show ?case by (subst find_close.simps) (auto intro: Suc_leD)
qed

section \<open>Function signatures and parameters\<close>

text \<open>\<open>looks_like_func_signature\<close>: \<open>None\<close> is the result \<open>false\<close>; \<open>Some\<close> carries
  the outputs \<open>i_name\<close>, \<open>i_lbrace\<close> (\<open>None\<close> for \<open>-1\<close>), \<open>i_lp\<close> and \<open>i_rp\<close>, which the
  callers read only when the result is \<open>true\<close>.\<close>

definition looks_like_func_signature ::
  "token list \<Rightarrow> nat \<Rightarrow> (nat \<times> nat option \<times> nat \<times> nat) option" where
  "looks_like_func_signature tk i_type =
     (let n = length tk;
          i = skip_while (\<lambda>i. ttype (tk ! i) = Keyword \<or> is_op tk i ''*'' \<or> is_op tk i ''&'')
                n (i_type + 1)
      in if i \<ge> n \<or> ttype (tk ! i) \<noteq> Identifier then None
         else if i + 1 < n \<and> is_p tk (i + 1) ''('' then
           (let rp = find_close tk ''('' '')'' (i + 1) 0;
                j = (if rp < n then rp + 1 else rp)
            in if j < n then
                 (let j' = skip_while
                      (\<lambda>j. ttype (tk ! j) = Keyword \<or> ttype (tk ! j) = Identifier \<or>
                           is_op tk j ''*'' \<or> is_op tk j ''&'') n j
                  in Some (i, if j' < n \<and> is_p tk j' ''{'' then Some j' else None, i + 1, rp))
               else None)
         else None)"

text \<open>The loop over \<open>[...]\<close> suffixes of a declarator in the strict declaration
  path and in \<open>parse_params\<close>: the final position and the number of suffixes.\<close>

function skip_arrays :: "token list \<Rightarrow> nat \<Rightarrow> nat \<Rightarrow> nat \<Rightarrow> nat \<times> nat" where
  "skip_arrays tk lim j arrays =
     (if j < lim \<and> is_p tk j ''['' then
        skip_arrays tk lim
          (if skip_while (\<lambda>k. \<not> is_p tk k '']'') lim j < lim
           then skip_while (\<lambda>k. \<not> is_p tk k '']'') lim j + 1
           else skip_while (\<lambda>k. \<not> is_p tk k '']'') lim j)
          (arrays + 1)
      else (j, arrays))"
  by pat_completeness auto
termination
proof (relation "measure (\<lambda>(tk, lim, j, arrays). lim - j)", goal_cases)
  case 1
  show ?case by simp
next
  case (2 tk lim j arrays)
  then have "\<not> is_p tk j '']''" by (auto simp: is_p_def TKIs_def split: if_splits)
  with 2 have "j < skip_while (\<lambda>k. \<not> is_p tk k '']'') lim j"
    by (intro skip_while_gt) auto
  with 2 show ?case by auto
qed

declare skip_arrays.simps [simp del]

lemma skip_arrays_ge: "j \<le> fst (skip_arrays tk lim j arrays)"
proof (induction tk lim j arrays rule: skip_arrays.induct)
  case (1 tk lim j arrays)
  have "j \<le> skip_while (\<lambda>k. \<not> is_p tk k '']'') lim j" by (rule skip_while_ge)
  with 1 show ?case
    by (subst skip_arrays.simps) (auto split: if_splits)
qed

text \<open>Whether the token at \<open>i\<close> starts a type: an identifier of the known-type
  set, or a built-in type keyword, \<open>struct\<close>, \<open>enum\<close> or \<open>union\<close>.\<close>

definition type_start :: "token list \<Rightarrow> string set \<Rightarrow> nat \<Rightarrow> bool" where
  "type_start tk known_types i =
     ((ttype (tk ! i) = Identifier \<and> ttext (tk ! i) \<in> known_types) \<or>
      (ttype (tk ! i) = Keyword \<and>
         (ttext (tk ! i) \<in> builtin_types \<or> ttext (tk ! i) = ''struct'' \<or>
          ttext (tk ! i) = ''enum'' \<or> ttext (tk ! i) = ''union'')))"

text \<open>One iteration of the loop of \<open>parse_params\<close> at \<open>i < rp\<close>: the next value of
  \<open>i\<close> and the parameter pushed, if any. The \<open>[...]\<close> suffixes after the name are
  skipped and their number is dropped: a \<open>Param\<close> has a name and a star count
  only.\<close>

definition parse_param :: "token list \<Rightarrow> nat \<Rightarrow> string set \<Rightarrow> nat \<Rightarrow> nat \<times> param list" where
  "parse_param tk rp known_types i =
     (if is_p tk i '','' then (i + 1, [])
      else if \<not> type_start tk known_types i then (i + 1, [])
      else if (is_kw tk i ''struct'' \<or> is_kw tk i ''enum'' \<or> is_kw tk i ''union'') \<and>
              \<not> (i + 1 < rp \<and> ttype (tk ! (i + 1)) = Identifier) then (i + 1, [])
      else
        (let j = (if is_kw tk i ''struct'' \<or> is_kw tk i ''enum'' \<or> is_kw tk i ''union''
                  then i + 2
                  else skip_while (\<lambda>j. ttype (tk ! j) = Keyword \<or> ttype (tk ! j) = Identifier)
                         rp i);
             j1 = skip_while (\<lambda>j. is_op tk j ''*'') rp j
         in if \<not> (j1 < rp \<and> ttype (tk ! j1) = Identifier) then (j1, [])
            else (skip_while (\<lambda>j. \<not> is_p tk j '','') rp
                    (fst (skip_arrays tk rp (j1 + 1) 0)),
                  [\<lparr>pname = ttext (tk ! j1), pstars = j1 - j\<rparr>])))"

lemma parse_param_gt:
  assumes "i < rp"
  shows "i < fst (parse_param tk rp known_types i)"
proof -
  let ?P = "\<lambda>j. ttype (tk ! j) = Keyword \<or> ttype (tk ! j) = Identifier"
  let ?skw = "is_kw tk i ''struct'' \<or> is_kw tk i ''enum'' \<or> is_kw tk i ''union''"
  define j where "j = (if ?skw then i + 2 else skip_while ?P rp i)"
  define j1 where "j1 = skip_while (\<lambda>j. is_op tk j ''*'') rp j"
  have j1: "j \<le> j1" unfolding j1_def by (rule skip_while_ge)
  have a: "j1 + 1 \<le> fst (skip_arrays tk rp (j1 + 1) 0)" by (rule skip_arrays_ge)
  have b: "fst (skip_arrays tk rp (j1 + 1) 0)
             \<le> skip_while (\<lambda>j. \<not> is_p tk j '','') rp (fst (skip_arrays tk rp (j1 + 1) 0))"
    by (rule skip_while_ge)
  have c: "i < j" if "type_start tk known_types i"
  proof (cases ?skw)
    case True
    then show ?thesis by (simp add: j_def)
  next
    case False
    from that have "?P i" by (auto simp: type_start_def)
    with assms have "i < skip_while ?P rp i" by (intro skip_while_gt)
    with False show ?thesis by (simp add: j_def)
  qed
  show ?thesis
    unfolding parse_param_def Let_def j_def [symmetric] j1_def [symmetric]
    using j1 a b c by (auto simp del: One_nat_def)
qed

function parse_params_loop ::
  "token list \<Rightarrow> nat \<Rightarrow> string set \<Rightarrow> nat \<Rightarrow> param list \<Rightarrow> param list" where
  "parse_params_loop tk rp known_types i out =
     (if i < rp then
        parse_params_loop tk rp known_types (fst (parse_param tk rp known_types i))
          (out @ snd (parse_param tk rp known_types i))
      else out)"
  by pat_completeness auto
termination
proof (relation "measure (\<lambda>(tk, rp, known_types, i, out). rp - i)", goal_cases)
  case 1
  show ?case by simp
next
  case (2 tk rp known_types i out)
  with parse_param_gt [of i rp tk known_types] show ?case by auto
qed

declare parse_params_loop.simps [simp del]

definition parse_params :: "token list \<Rightarrow> nat \<Rightarrow> nat \<Rightarrow> string set \<Rightarrow> param list" where
  "parse_params tk lp rp known_types = parse_params_loop tk rp known_types (lp + 1) []"

section \<open>Relaxed declaration detection\<close>

text \<open>The loop over \<open>[...]\<close> suffixes in \<open>detect_relaxed_declaration\<close>, which
  stops (\<open>break\<close>) in front of an opening bracket that is never closed.\<close>

function relaxed_arrays :: "token list \<Rightarrow> nat \<Rightarrow> nat \<Rightarrow> nat \<times> nat" where
  "relaxed_arrays tk j arrays =
     (if j < length tk \<and> is_p tk j ''['' then
        (if skip_while (\<lambda>k. \<not> is_p tk k '']'') (length tk) (j + 1) = length tk
         then (j, arrays)
         else relaxed_arrays tk
                (skip_while (\<lambda>k. \<not> is_p tk k '']'') (length tk) (j + 1) + 1) (arrays + 1))
      else (j, arrays))"
  by pat_completeness auto
termination
proof (relation "measure (\<lambda>(tk, j, arrays). length tk - j)", goal_cases)
  case 1
  show ?case by simp
next
  case (2 tk j arrays)
  have "j + 1 \<le> skip_while (\<lambda>k. \<not> is_p tk k '']'') (length tk) (j + 1)"
    by (rule skip_while_ge)
  with 2 show ?case by auto
qed

declare relaxed_arrays.simps [simp del]

text \<open>\<open>detect_relaxed_declaration\<close>: \<open>None\<close> is the result \<open>false\<close>; \<open>Some\<close> carries
  \<open>j_out\<close>, \<open>name_out\<close>, \<open>stars_out\<close> and \<open>arrays_out\<close>. The source reads \<open>tk[i]\<close>
  unchecked; its only caller passes \<open>i < tk.size()\<close>.\<close>

definition detect_relaxed_declaration ::
  "token list \<Rightarrow> nat \<Rightarrow> (nat \<times> string \<times> nat \<times> nat) option" where
  "detect_relaxed_declaration tk i =
     (let n = length tk in
      if \<not> (ttype (tk ! i) = Identifier \<or>
             (ttype (tk ! i) = Keyword \<and>
                (ttext (tk ! i) = ''struct'' \<or> ttext (tk ! i) = ''enum'' \<or>
                 ttext (tk ! i) = ''union''))) then None
      else if ttype (tk ! i) = Keyword \<and> \<not> (i + 1 < n \<and> ttype (tk ! (i + 1)) = Identifier)
      then None
      else
        (let j = skip_while (\<lambda>j. ttype (tk ! j) = Keyword \<or> ttype (tk ! j) = Identifier) n
                   (if ttype (tk ! i) = Keyword then i + 2 else i + 1);
             j1 = skip_while (\<lambda>j. ttype (tk ! j) = Operator \<and> ttext (tk ! j) = ''*'') n j
         in if \<not> (j1 < n \<and> ttype (tk ! j1) = Identifier) then None
            else
              (case relaxed_arrays tk (j1 + 1) 0 of
                 (j2, arrays) \<Rightarrow>
                   if j2 < n \<and>
                      ((ttype (tk ! j2) = Punct \<and>
                          (ttext (tk ! j2) = '';'' \<or> ttext (tk ! j2) = '','' \<or>
                           ttext (tk ! j2) = ''['')) \<or>
                       (ttype (tk ! j2) = Operator \<and> ttext (tk ! j2) = ''='') \<or>
                       (ttype (tk ! j2) = Punct \<and> ttext (tk ! j2) = ''{''))
                   then Some (j2, ttext (tk ! j1), j1 - j, arrays)
                   else None)))"

section \<open>Scope and declaration analysis\<close>

text \<open>The default \<open>VarInfo\<close>, which \<open>scope_vars[cur][name]\<close> creates for a name
  without a record.\<close>

definition default_VarInfo :: var_info where
  "default_VarInfo = \<lparr>pointer_level = 999, array_rank = 0\<rparr>"

text \<open>The update of \<open>VarInfo& vi = scope_vars[cur][name]\<close> by a declarator with
  \<open>st\<close> stars and \<open>ar\<close> array suffixes (strict and relaxed paths).\<close>

definition observe_var :: "(string \<rightharpoonup> var_info) \<Rightarrow> string \<Rightarrow> nat \<Rightarrow> nat \<Rightarrow> (string \<rightharpoonup> var_info)" where
  "observe_var m name st ar =
     (let vi = (case m name of None \<Rightarrow> default_VarInfo | Some v \<Rightarrow> v)
      in m(name \<mapsto>
           \<lparr>pointer_level =
              (if pointer_level vi = 999 then st
               else if st < pointer_level vi then st else pointer_level vi),
            array_rank = (if ar > array_rank vi then ar else array_rank vi)\<rparr>))"

text \<open>The update by a deposited function parameter at the function's \<open>{\<close>: only
  the pointer level is assigned.\<close>

definition deposit_param :: "(string \<rightharpoonup> var_info) \<Rightarrow> param \<Rightarrow> (string \<rightharpoonup> var_info)" where
  "deposit_param m p =
     (let vi = (case m (pname p) of None \<Rightarrow> default_VarInfo | Some v \<Rightarrow> v)
      in m(pname p \<mapsto>
           vi\<lparr>pointer_level :=
                (if pointer_level vi = 999 then pstars p
                 else if pstars p < pointer_level vi then pstars p else pointer_level vi)\<rparr>))"

text \<open>The state of \<open>analyze_scopes_and_vars\<close>: its four reference arguments and
  its local variables \<open>cur\<close>, \<open>pending_kind\<close>, \<open>pending_name\<close> and
  \<open>params_at_lbrace\<close>.\<close>

record analysis =
  st_tk :: "token list"
  st_scopes :: "scope list"
  st_scope_vars :: "(string \<rightharpoonup> var_info) list"
  st_known_types :: "string set"
  st_cur :: int
  st_pending_kind :: string
  st_pending_name :: string
  st_params_at_lbrace :: "nat \<rightharpoonup> param list"

text \<open>The scan after \<open>typedef\<close>: up to the first \<open>;\<close> or \<open>}\<close> Punct, remembering the
  index of the last Identifier seen.\<close>

function typedef_last_ident :: "token list \<Rightarrow> nat \<Rightarrow> nat option \<Rightarrow> nat option" where
  "typedef_last_ident tk j last_ident =
     (if j < length tk \<and>
         \<not> (ttype (tk ! j) = Punct \<and> (ttext (tk ! j) = '';'' \<or> ttext (tk ! j) = ''}''))
      then typedef_last_ident tk (Suc j)
             (if ttype (tk ! j) = Identifier then Some j else last_ident)
      else last_ident)"
  by pat_completeness auto
termination
  by (relation "measure (\<lambda>(tk, j, last_ident). length tk - j)") auto

declare typedef_last_ident.simps [simp del]

definition assign_scope :: "nat \<Rightarrow> analysis \<Rightarrow> analysis" where
  "assign_scope i st = st\<lparr>st_tk := (st_tk st)[i := (st_tk st ! i)\<lparr>tscope_id := st_cur st\<rparr>]\<rparr>"

text \<open>typedef adds a new known type (last identifier before \<open>;\<close> or \<open>}\<close>).\<close>

definition observe_typedef :: "nat \<Rightarrow> analysis \<Rightarrow> analysis" where
  "observe_typedef i st =
     (if is_kw (st_tk st) i ''typedef'' then
        (case typedef_last_ident (st_tk st) (i + 1) None of
           None \<Rightarrow> st
         | Some li \<Rightarrow> st\<lparr>st_known_types := insert (ttext (st_tk st ! li)) (st_known_types st)\<rparr>)
      else st)"

text \<open>Tag names of struct, union and enum become known types; the kind and
  name are remembered for the upcoming \<open>{\<close>.\<close>

definition observe_tag :: "nat \<Rightarrow> analysis \<Rightarrow> analysis" where
  "observe_tag i st =
     (if is_kw (st_tk st) i ''struct'' \<or> is_kw (st_tk st) i ''enum'' \<or>
         is_kw (st_tk st) i ''union'' then
        st\<lparr>st_known_types :=
             (if i + 1 < length (st_tk st) \<and> ttype (st_tk st ! (i + 1)) = Identifier
              then insert (ttext (st_tk st ! (i + 1))) (st_known_types st)
              else st_known_types st),
           st_pending_kind :=
             (if is_kw (st_tk st) i ''struct'' then ''Struct''
              else if is_kw (st_tk st) i ''enum'' then ''Enum'' else ''Union''),
           st_pending_name :=
             (if i + 1 < length (st_tk st) \<and> ttype (st_tk st ! (i + 1)) = Identifier
              then ttext (st_tk st ! (i + 1)) else [])\<rparr>
      else st)"

text \<open>Function detection, for a token that starts a type: a signature followed
  by \<open>{\<close> sets the pending scope and deposits the parameters at that brace.\<close>

definition detect_function :: "nat \<Rightarrow> analysis \<Rightarrow> analysis" where
  "detect_function i st =
     (case looks_like_func_signature (st_tk st) i of
        Some (i_name, Some i_lbrace, lp, rp) \<Rightarrow>
          st\<lparr>st_pending_kind := ''Function'',
             st_pending_name := ttext (st_tk st ! i_name),
             st_params_at_lbrace :=
               (st_params_at_lbrace st)
                 (i_lbrace \<mapsto> parse_params (st_tk st) lp rp (st_known_types st))\<rparr>
      | _ \<Rightarrow> st)"

text \<open>The declarator list of the strict path, from \<open>j\<close>: the updated variables
  of the current scope and \<open>handled_decl\<close>.\<close>

function strict_declarators ::
  "token list \<Rightarrow> nat \<Rightarrow> (string \<rightharpoonup> var_info) \<Rightarrow> bool \<Rightarrow> (string \<rightharpoonup> var_info) \<times> bool" where
  "strict_declarators tk j vars handled =
     (if j < length tk then
        (if \<not> (skip_while (\<lambda>k. is_op tk k ''*'') (length tk) j < length tk \<and>
                ttype (tk ! skip_while (\<lambda>k. is_op tk k ''*'') (length tk) j) = Identifier)
         then (vars, handled)
         else
           (case skip_arrays tk (length tk)
                   (skip_while (\<lambda>k. is_op tk k ''*'') (length tk) j + 1) 0 of
              (j2, arrays) \<Rightarrow>
                if j2 < length tk \<and> is_p tk j2 '',''
                then strict_declarators tk (j2 + 1)
                       (observe_var vars
                          (ttext (tk ! skip_while (\<lambda>k. is_op tk k ''*'') (length tk) j))
                          (skip_while (\<lambda>k. is_op tk k ''*'') (length tk) j - j) arrays)
                       True
                else (observe_var vars
                        (ttext (tk ! skip_while (\<lambda>k. is_op tk k ''*'') (length tk) j))
                        (skip_while (\<lambda>k. is_op tk k ''*'') (length tk) j - j) arrays,
                      True)))
      else (vars, handled))"
  by pat_completeness auto
termination
proof (relation "measure (\<lambda>(tk, j, vars, handled). length tk - j)", goal_cases)
  case 1
  show ?case by simp
next
  case (2 tk j vars handled j2 arrays)
  have "j \<le> skip_while (\<lambda>k. is_op tk k ''*'') (length tk) j" by (rule skip_while_ge)
  moreover have "skip_while (\<lambda>k. is_op tk k ''*'') (length tk) j + 1
      \<le> fst (skip_arrays tk (length tk) (skip_while (\<lambda>k. is_op tk k ''*'') (length tk) j + 1) 0)"
    by (rule skip_arrays_ge)
  moreover from 2 have "fst (skip_arrays tk (length tk)
      (skip_while (\<lambda>k. is_op tk k ''*'') (length tk) j + 1) 0) = j2"
    by (metis fst_conv)
  ultimately show ?case using 2 by auto
qed

declare strict_declarators.simps [simp del]

text \<open>Variable declarators (non-function), for a token that starts a type.\<close>

definition strict_declaration :: "nat \<Rightarrow> analysis \<Rightarrow> analysis \<times> bool" where
  "strict_declaration i st =
     (case looks_like_func_signature (st_tk st) i of
        Some sig \<Rightarrow> (st, False)
      | None \<Rightarrow>
          (case strict_declarators (st_tk st)
                  (if is_kw (st_tk st) i ''struct'' \<or> is_kw (st_tk st) i ''enum'' \<or>
                      is_kw (st_tk st) i ''union''
                   then (if i + 1 < length (st_tk st) \<and>
                            ttype (st_tk st ! (i + 1)) = Identifier
                         then i + 2 else i)
                   else skip_while
                          (\<lambda>j. ttype (st_tk st ! j) = Keyword \<or>
                               ttype (st_tk st ! j) = Identifier)
                          (length (st_tk st)) i)
                  (st_scope_vars st ! nat (st_cur st)) False of
             (vars, handled) \<Rightarrow>
               (st\<lparr>st_scope_vars := (st_scope_vars st)[nat (st_cur st) := vars]\<rparr>, handled)))"

text \<open>Relaxed path (type unknown): try a generic declarator shape.\<close>

definition relaxed_declaration :: "nat \<Rightarrow> bool \<Rightarrow> analysis \<Rightarrow> analysis" where
  "relaxed_declaration i handled st =
     (if \<not> handled \<and> ttype (st_tk st ! i) = Identifier then
        (case detect_relaxed_declaration (st_tk st) i of
           Some (jnext, vname, n_stars, n_arrays) \<Rightarrow>
             st\<lparr>st_scope_vars :=
                  (st_scope_vars st)
                    [nat (st_cur st) :=
                       observe_var (st_scope_vars st ! nat (st_cur st)) vname n_stars n_arrays]\<rparr>
         | None \<Rightarrow> st)
      else st)"

text \<open>Scope open: create a scope with the pending kind and name; function
  parameters become variables of the function scope.\<close>

definition scope_open :: "nat \<Rightarrow> analysis \<Rightarrow> analysis" where
  "scope_open i st =
     (if is_p (st_tk st) i ''{'' then
        st\<lparr>st_scopes :=
             st_scopes st @
               [\<lparr>sid = int (length (st_scopes st)), parent = st_cur st,
                 kind = (if st_pending_kind st = [] then ''Block'' else st_pending_kind st),
                 sname = st_pending_name st\<rparr>],
           st_scope_vars :=
             st_scope_vars st @
               [case st_params_at_lbrace st i of
                  None \<Rightarrow> Map.empty
                | Some ps \<Rightarrow> foldl deposit_param Map.empty ps],
           st_cur := int (length (st_scopes st)),
           st_pending_kind := [],
           st_pending_name := []\<rparr>
      else st)"

definition scope_close :: "nat \<Rightarrow> analysis \<Rightarrow> analysis" where
  "scope_close i st =
     (if is_p (st_tk st) i ''}'' then
        st\<lparr>st_cur :=
             (if st_cur st \<noteq> 0 then parent (st_scopes st ! nat (st_cur st)) else st_cur st),
           st_pending_kind := [],
           st_pending_name := []\<rparr>
      else st)"

text \<open>The body of the loop of \<open>analyze_scopes_and_vars\<close> for the token at \<open>i\<close>.
  \<open>type_start\<close> is computed once, after the typedef and tag observations.\<close>

definition analyze_step :: "nat \<Rightarrow> analysis \<Rightarrow> analysis" where
  "analyze_step i st =
     (let st1 = observe_tag i (observe_typedef i (assign_scope i st)) in
      if type_start (st_tk st1) (st_known_types st1) i then
        (case strict_declaration i (detect_function i st1) of
           (st3, handled) \<Rightarrow> scope_close i (scope_open i (relaxed_declaration i handled st3)))
      else scope_close i (scope_open i (relaxed_declaration i False st1)))"

function analyze_loop :: "nat \<Rightarrow> nat \<Rightarrow> analysis \<Rightarrow> analysis" where
  "analyze_loop n i st = (if i < n then analyze_loop n (Suc i) (analyze_step i st) else st)"
  by pat_completeness auto
termination
  by (relation "measure (\<lambda>(n, i, st). n - i)") auto

declare analyze_loop.simps [simp del]

definition analyze_scopes_and_vars :: "token list \<Rightarrow> string set \<Rightarrow> analysis" where
  "analyze_scopes_and_vars tk known =
     analyze_loop (length tk) 0
       \<lparr>st_tk = tk,
        st_scopes = [\<lparr>sid = 0, parent = -1, kind = ''Global'', sname = []\<rparr>],
        st_scope_vars = [Map.empty],
        st_known_types = known,
        st_cur = 0,
        st_pending_kind = [],
        st_pending_name = [],
        st_params_at_lbrace = Map.empty\<rparr>"

section \<open>Resolving a name along the scope chain\<close>

text \<open>\<open>resolve_ptr_level\<close>: the pointer level and the array rank
  (\<open>array_rank_out\<close>) of the nearest record of \<open>name\<close>, or \<open>(999, 0)\<close> when the walk
  reaches the parent \<open>-1\<close>. The loop has no bound of its own: \<open>None\<close> stands for a
  walk that never ends or that indexes outside \<open>scope_vars\<close> or \<open>scopes\<close>.\<close>

partial_function (option) resolve_ptr_level ::
  "scope list \<Rightarrow> (string \<rightharpoonup> var_info) list \<Rightarrow> int \<Rightarrow> string \<Rightarrow> (nat \<times> nat) option" where
  "resolve_ptr_level scps svars c name =
     (if c = -1 then Some (999, 0)
      else if c < 0 \<or> nat c \<ge> length svars then None
      else (case (svars ! nat c) name of
              Some vi \<Rightarrow> Some (pointer_level vi, array_rank vi)
            | None \<Rightarrow>
                if nat c \<ge> length scps then None
                else resolve_ptr_level scps svars (parent (scps ! nat c)) name))"

declare resolve_ptr_level.simps [code]

section \<open>Enum cleanup and type-block terminators\<close>

text \<open>Remove any semicolons that appear inside enum bodies.\<close>

definition remove_semicolons_inside_enums :: "token list \<Rightarrow> scope list \<Rightarrow> token list" where
  "remove_semicolons_inside_enums toks scps =
     filter (\<lambda>t. \<not> (ttype t = Punct \<and> ttext t = '';'' \<and>
                     tscope_id t \<ge> 0 \<and> tscope_id t < int (length scps) \<and>
                     kind (scps ! nat (tscope_id t)) = ''Enum'')) toks"

text \<open>Whether the token at \<open>i\<close> is a \<open>}\<close> whose scope is a struct, union or enum
  body (the three \<open>continue\<close> tests of \<open>add_semicolon_after_type_blocks\<close>).\<close>

definition type_block_closer :: "scope list \<Rightarrow> token list \<Rightarrow> nat \<Rightarrow> bool" where
  "type_block_closer scps toks i =
     (ttype (toks ! i) = Punct \<and> ttext (toks ! i) = ''}'' \<and>
      \<not> (tscope_id (toks ! i) < 0 \<or> tscope_id (toks ! i) \<ge> int (length scps)) \<and>
      (kind (scps ! nat (tscope_id (toks ! i))) = ''Struct'' \<or>
       kind (scps ! nat (tscope_id (toks ! i))) = ''Union'' \<or>
       kind (scps ! nat (tscope_id (toks ! i))) = ''Enum''))"

text \<open>The lookahead from \<open>i + 1\<close> past Preprocessor tokens, and the test
  \<open>declarator_follows\<close> on the token found there (false at the end).\<close>

definition declarator_follows :: "token list \<Rightarrow> nat \<Rightarrow> bool" where
  "declarator_follows toks i =
     (let j = skip_while (\<lambda>j. ttype (toks ! j) = Preprocessor) (length toks) (i + 1)
      in j < length toks \<and>
         (ttype (toks ! j) = Identifier \<or>
          (ttype (toks ! j) = Operator \<and> ttext (toks ! j) = ''*'') \<or>
          (ttype (toks ! j) = Punct \<and>
             (ttext (toks ! j) = ''('' \<or> ttext (toks ! j) = ''['' \<or> ttext (toks ! j) = '';''))))"

text \<open>The loop of \<open>add_semicolon_after_type_blocks\<close> from index \<open>i\<close>, editing the
  vector in place: the inserted \<open>;\<close> is a copy of the \<open>}\<close> token with type and
  text replaced, and is skipped.\<close>

function astb_loop :: "scope list \<Rightarrow> token list \<Rightarrow> nat \<Rightarrow> token list" where
  "astb_loop scps toks i =
     (if i < length toks then
        (if type_block_closer scps toks i \<and> \<not> declarator_follows toks i
         then astb_loop scps
                (insert_at toks (i + 1) ((toks ! i)\<lparr>ttype := Punct, ttext := '';''\<rparr>)) (i + 2)
         else astb_loop scps toks (i + 1))
      else toks)"
  by pat_completeness auto
termination
  by (relation "measure (\<lambda>(scps, toks, i). length toks - i)") auto

declare astb_loop.simps [simp del]

definition add_semicolon_after_type_blocks :: "token list \<Rightarrow> scope list \<Rightarrow> token list" where
  "add_semicolon_after_type_blocks toks scps = astb_loop scps toks 0"

section \<open>Lines\<close>

text \<open>The loop of \<open>split_into_lines\<close>: \<open>current\<close> is the line number of the group
  being filled, which is the last one of \<open>byline\<close>.\<close>

fun split_loop ::
  "token list \<Rightarrow> nat \<Rightarrow> token list list \<Rightarrow> int list \<Rightarrow> token list list \<times> int list" where
  "split_loop [] current byline line_scope = (byline, line_scope)"
| "split_loop (t # ts) current byline line_scope =
     (if tline t \<noteq> current
      then split_loop ts (tline t) (byline @ [[t]]) (line_scope @ [tscope_id t])
      else split_loop ts current (butlast byline @ [last byline @ [t]]) line_scope)"

definition split_into_lines :: "token list \<Rightarrow> token list list \<times> int list" where
  "split_into_lines toks =
     (case toks of
        [] \<Rightarrow> ([], [])
      | t # ts \<Rightarrow> split_loop toks (tline t) [[]] [tscope_id t])"

text \<open>Need a trailing \<open>;\<close>? (never inside enum bodies).\<close>

definition needs_semicolon :: "token list \<Rightarrow> string \<Rightarrow> bool" where
  "needs_semicolon line scope_kind =
     (if line = [] then False
      else if scope_kind = ''Enum'' then False
      else if ttype (hd line) = Preprocessor then False
      else if ttype (last line) = Punct \<and> ttext (last line) = ''}'' then
        (\<exists>t \<in> set (butlast line). ttype t = Operator \<and> ttext t = ''='') \<and>
        (\<exists>t \<in> set (butlast line). ttype t = Punct \<and> ttext t = ''{'')
      else if ttype (last line) = Punct \<and>
              (ttext (last line) = ''{'' \<or> ttext (last line) = '';'') then False
      else if (\<exists>t \<in> set line. ttype t = Keyword \<and>
                 (ttext t = ''if'' \<or> ttext t = ''for'' \<or> ttext t = ''while'' \<or>
                  ttext t = ''switch'')) \<and>
              ttype (last line) = Punct \<and> ttext (last line) = '')'' then False
      else if ttype (last line) = Identifier \<or> ttype (last line) = Number \<or>
              ttype (last line) = StringLit \<or>
              (ttype (last line) = Punct \<and>
                 (ttext (last line) = '')'' \<or> ttext (last line) = '']'')) then True
      else False)"

section \<open>Member access rewrite\<close>

text \<open>Walk postfix \<open>[ ... ]\<close> and \<open>( ... )\<close> from \<open>j\<close>: the final \<open>j\<close>, \<open>cur_ptr\<close>
  and \<open>cur_arr\<close>.\<close>

function walk_postfix :: "token list \<Rightarrow> nat \<Rightarrow> nat \<Rightarrow> nat \<Rightarrow> nat \<times> nat \<times> nat" where
  "walk_postfix line j cur_ptr cur_arr =
     (if j < length line then
        (if ttype (line ! j) = Punct \<and> ttext (line ! j) = ''['' then
           (if find_close line ''['' '']'' j 0 < length line then
              walk_postfix line (find_close line ''['' '']'' j 0 + 1)
                (if cur_arr > 0 then cur_ptr else if cur_ptr > 0 then cur_ptr - 1 else cur_ptr)
                (if cur_arr > 0 then cur_arr - 1 else cur_arr)
            else (j, cur_ptr, cur_arr))
         else if ttype (line ! j) = Punct \<and> ttext (line ! j) = ''('' then
           (if find_close line ''('' '')'' j 0 < length line then
              walk_postfix line (find_close line ''('' '')'' j 0 + 1) cur_ptr cur_arr
            else (j, cur_ptr, cur_arr))
         else (j, cur_ptr, cur_arr))
      else (j, cur_ptr, cur_arr))"
  by pat_completeness auto
termination
proof (relation "measure (\<lambda>(line, j, cur_ptr, cur_arr). length line - j)", goal_cases)
  case 1
  show ?case by simp
next
  case (2 line j cur_ptr cur_arr)
  with find_close_ge [of j line "''[''" "'']''" 0] show ?case by auto
next
  case (3 line j cur_ptr cur_arr)
  with find_close_ge [of j line "''(''" "'')''" 0] show ?case by auto
qed

declare walk_postfix.simps [simp del]

text \<open>The wrapping of a base with effective pointer depth above one: \<open>(\<close> and
  \<open>*\<close> (copies of the base token \<open>line[i]\<close>) are inserted at \<open>i\<close> and \<open>i + 1\<close>, \<open>)\<close>
  (a copy of \<open>line[j]\<close>) at \<open>j + 2\<close>, and the dot, now at \<open>j + 3\<close>, becomes \<open>->\<close>.\<close>

definition wrap_base :: "token list \<Rightarrow> nat \<Rightarrow> nat \<Rightarrow> token list" where
  "wrap_base line i j =
     (let l1 = insert_at line i ((line ! i)\<lparr>ttype := Punct, ttext := ''(''\<rparr>);
          l2 = insert_at l1 (i + 1) ((line ! i)\<lparr>ttype := Operator, ttext := ''*''\<rparr>);
          l3 = insert_at l2 (j + 2) ((line ! j)\<lparr>ttype := Punct, ttext := '')''\<rparr>)
      in l3[j + 3 := (l3 ! (j + 3))\<lparr>ttype := Operator, ttext := ''->''\<rparr>])"

lemma length_wrap_base [simp]: "length (wrap_base line i j) = length line + 3"
  by (simp add: wrap_base_def Let_def)

text \<open>Rewrite \<open>. <ident>\<close> segments based on the effective pointer depth: the
  edited line and the final \<open>j\<close>. \<open>i\<close> is the position of the base identifier.\<close>

function rewrite_dots :: "token list \<Rightarrow> nat \<Rightarrow> nat \<Rightarrow> nat \<Rightarrow> token list \<times> nat" where
  "rewrite_dots line i j cur_ptr =
     (if j + 1 < length line \<and> ttype (line ! j) = Punct \<and> ttext (line ! j) = ''.'' \<and>
         ttype (line ! (j + 1)) = Identifier then
        (if cur_ptr = 1 then
           rewrite_dots (line[j := (line ! j)\<lparr>ttype := Operator, ttext := ''->''\<rparr>]) i (j + 2)
             cur_ptr
         else if cur_ptr > 1 then rewrite_dots (wrap_base line i j) i (j + 5) (cur_ptr - 1)
         else rewrite_dots line i (j + 2) cur_ptr)
      else (line, j))"
  by pat_completeness auto
termination
  by (relation "measure (\<lambda>(line, i, j, cur_ptr). length line - j)") auto

declare rewrite_dots.simps [simp del]

lemma walk_postfix_ge: "j \<le> fst (walk_postfix line j cur_ptr cur_arr)"
proof (induction line j cur_ptr cur_arr rule: walk_postfix.induct)
  case (1 line j cur_ptr cur_arr)
  have a: "j \<le> find_close line ''['' '']'' j 0" and b: "j \<le> find_close line ''('' '')'' j 0"
    by (rule find_close_ge)+
  from 1 a b show ?case
    by (subst walk_postfix.simps) (auto split: if_splits intro: Suc_leD order_trans)
qed

lemma rewrite_dots_ge: "j \<le> snd (rewrite_dots line i j cur_ptr)"
proof (induction line i j cur_ptr rule: rewrite_dots.induct)
  case (1 line i j cur_ptr)
  then show ?case
    by (subst rewrite_dots.simps) (auto split: if_splits)
qed

lemma rewrite_dots_measure:
  "length (fst (rewrite_dots line i j cur_ptr)) - snd (rewrite_dots line i j cur_ptr)
     \<le> length line - j"
proof (induction line i j cur_ptr rule: rewrite_dots.induct)
  case (1 line i j cur_ptr)
  then show ?case
    by (subst (1 2) rewrite_dots.simps) (auto split: if_splits)
qed

text \<open>The outer loop of \<open>rewrite_member_chains\<close> from index \<open>i\<close>. After a base has
  been handled the scan continues at \<open>j\<close> (\<open>if (j > 0) i = j - 1\<close>, then \<open>++i\<close>).
  The result is \<open>None\<close> when \<open>resolve_ptr_level\<close> does not return.\<close>

function rmc_loop ::
  "scope list \<Rightarrow> (string \<rightharpoonup> var_info) list \<Rightarrow> int \<Rightarrow> token list \<Rightarrow> nat \<Rightarrow> token list option" where
  "rmc_loop scps svars scope_id line i =
     (if i < length line then
        (if ttype (line ! i) \<noteq> Identifier then rmc_loop scps svars scope_id line (i + 1)
         else
           (case resolve_ptr_level scps svars scope_id (ttext (line ! i)) of
              None \<Rightarrow> None
            | Some (ptr, base_arrays) \<Rightarrow>
                if ptr = 999 \<and> base_arrays = 0
                then rmc_loop scps svars scope_id line (i + 1)
                else
                  (case walk_postfix line (i + 1) (if ptr = 999 then 0 else ptr) base_arrays of
                     (j, cur_ptr, cur_arr) \<Rightarrow>
                       (case rewrite_dots line i j cur_ptr of
                          (line', j') \<Rightarrow>
                            rmc_loop scps svars scope_id line'
                              ((if j' > 0 then j' - 1 else i) + 1)))))
      else Some line)"
  by pat_completeness auto
termination
proof (relation "measure (\<lambda>(scps, svars, scope_id, line, i). length line - i)", goal_cases)
  case 1
  show ?case by simp
next
  case (2 scps svars scope_id line i)
  then show ?case by auto
next
  case (3 scps svars scope_id line i x2 ptr base_arrays)
  then show ?case by auto
next
  case (4 scps svars scope_id line i x2 ptr base_arrays j ya cur_ptr cur_arr line' j')
  have a: "i + 1 \<le> j"
    using walk_postfix_ge [of "i + 1" line "if ptr = 999 then 0 else ptr" base_arrays] 4
    by (metis fst_conv)
  have b: "j \<le> j'" using rewrite_dots_ge [of j line i cur_ptr] 4 by (metis snd_conv)
  have c: "length line' - j' \<le> length line - j"
    using rewrite_dots_measure [of line i j cur_ptr] 4 by (metis fst_conv snd_conv)
  from a b have d: "0 < j'" by simp
  from 4 have e: "i < length line" by simp
  from a b c e have "length line' - j' < length line - i" by linarith
  with d show ?case by simp
qed

declare rmc_loop.simps [simp del]

definition rewrite_member_chains ::
  "token list \<Rightarrow> int \<Rightarrow> scope list \<Rightarrow> (string \<rightharpoonup> var_info) list \<Rightarrow> token list option" where
  "rewrite_member_chains line scope_id scps svars = rmc_loop scps svars scope_id line 0"

section \<open>Semicolon before a closing brace, and the emitter\<close>

text \<open>The loop of \<open>insert_semicolon_before_closing_brace_on_line\<close> from index
  \<open>i \<ge> 1\<close>: the inserted \<open>;\<close> is a copy of the previous token.\<close>

function isb_loop :: "token list \<Rightarrow> nat \<Rightarrow> token list" where
  "isb_loop line i =
     (if i < length line then
        (if ttype (line ! i) = Punct \<and> ttext (line ! i) = ''}'' then
           (if ttype (line ! (i - 1)) = Punct \<and>
               (ttext (line ! (i - 1)) = '';'' \<or> ttext (line ! (i - 1)) = ''{'')
            then isb_loop line (i + 1)
            else if (ttype (line ! (i - 1)) = Identifier \<or> ttype (line ! (i - 1)) = Number \<or>
                     ttype (line ! (i - 1)) = StringLit) \<or>
                    (ttype (line ! (i - 1)) = Punct \<and>
                       (ttext (line ! (i - 1)) = '')'' \<or> ttext (line ! (i - 1)) = '']'')) \<or>
                    ttype (line ! (i - 1)) = Operator
            then isb_loop
                   (insert_at line i ((line ! (i - 1))\<lparr>ttype := Punct, ttext := '';''\<rparr>))
                   (i + 2)
            else isb_loop line (i + 1))
         else isb_loop line (i + 1))
      else line)"
  by pat_completeness auto
termination
  by (relation "measure (\<lambda>(line, i). length line - i)") auto

declare isb_loop.simps [simp del]

definition insert_semicolon_before_closing_brace_on_line ::
  "token list \<Rightarrow> string \<Rightarrow> token list" where
  "insert_semicolon_before_closing_brace_on_line line scope_kind =
     (if scope_kind = ''Enum'' then line else isb_loop line 1)"

text \<open>The loop of \<open>emit_line\<close> over the remaining tokens, with the flag \<open>bol\<close>. The
  two branches marked \<open>/*stick*/\<close> in the source are empty, so they change
  nothing and do not appear here.\<close>

fun emit_tokens :: "token list \<Rightarrow> bool \<Rightarrow> string" where
  "emit_tokens [] bol = [LF]"
| "emit_tokens (t # ts) bol =
     (if ttype t = Preprocessor then (if \<not> bol then [LF] else []) @ ttext t @ [LF]
      else
        (if \<not> bol \<and>
            \<not> (ttype t = Punct \<and>
                 (ttext t = '','' \<or> ttext t = '')'' \<or> ttext t = '']'' \<or> ttext t = '';''))
         then '' '' else []) @ ttext t @ emit_tokens ts False)"

definition emit_line :: "token list \<Rightarrow> string" where
  "emit_line line = (if line = [] then [LF] else emit_tokens line True)"

section \<open>The translation of one file (the body of the loop of main)\<close>

text \<open>The scope kind of a line: \<open>sid < scopes.size() ? scopes[sid].kind : "Global"\<close>.\<close>

definition line_kind :: "scope list \<Rightarrow> int \<Rightarrow> string" where
  "line_kind scps s = (if s < int (length scps) then kind (scps ! nat s) else ''Global'')"

text \<open>The semicolon inserter's last step: append \<open>;\<close> when the line needs it.\<close>

definition append_semicolon :: "token list \<Rightarrow> string \<Rightarrow> token list" where
  "append_semicolon line scope_kind =
     (if line \<noteq> [] \<and> needs_semicolon line scope_kind
      then line @ [\<lparr>ttype = Punct, ttext = '';'', tline = tline (last line),
                    tcol = tcol (last line) + 1, tscope_id = 0\<rparr>]
      else line)"

definition process_line ::
  "scope list \<Rightarrow> (string \<rightharpoonup> var_info) list \<Rightarrow> token list \<times> int \<Rightarrow> string option" where
  "process_line scps svars ls =
     (case rewrite_member_chains (fst ls) (snd ls) scps svars of
        None \<Rightarrow> None
      | Some line \<Rightarrow>
          Some (emit_line
                  (append_semicolon
                     (insert_semicolon_before_closing_brace_on_line line
                        (line_kind scps (snd ls)))
                     (line_kind scps (snd ls)))))"

text \<open>One file: \<open>Inl\<close> is the exit with code 2 in the lexer, before any later
  pass and before the output file is written; \<open>Inr (Some (out, known))\<close> is the
  text written to the output file and the known-type set handed to the next
  file; \<open>Inr None\<close> stands for a member rewrite that does not return.\<close>

definition translate_file :: "string set \<Rightarrow> string \<Rightarrow> error + (string \<times> string set) option" where
  "translate_file known src =
     (case lex (preprocess_physical_lines src) of
        Inl e \<Rightarrow> Inl e
      | Inr toks \<Rightarrow>
          (let st = analyze_scopes_and_vars toks known;
               toks2 = add_semicolon_after_type_blocks
                         (remove_semicolons_inside_enums (st_tk st) (st_scopes st))
                         (st_scopes st)
           in Inr (map_option (\<lambda>outs. (concat outs, st_known_types st))
                     (those (map (process_line (st_scopes st) (st_scope_vars st))
                               (zip (fst (split_into_lines toks2))
                                    (snd (split_into_lines toks2))))))))"


subsection \<open>The terminator condition as stated for the semicolon inserter\<close>

text \<open>The condition in the words of the specification (section 4.8), whose last
  conjunct admits only an Identifier, Number, StringLit, \<open>)\<close> or \<open>]\<close> as the last
  token; and a line that ends an initializer list, \<open>x = { 1 }\<close>.\<close>

definition claimed_needs_semicolon :: "token list \<Rightarrow> string \<Rightarrow> bool" where
  "claimed_needs_semicolon line scope_kind =
     (line \<noteq> [] \<and> scope_kind \<noteq> ''Enum'' \<and> ttype (hd line) \<noteq> Preprocessor \<and>
      \<not> (ttype (last line) = Punct \<and> (ttext (last line) = ''{'' \<or> ttext (last line) = '';'')) \<and>
      (ttype (last line) = Punct \<and> ttext (last line) = ''}'' \<longrightarrow>
         (\<exists>t \<in> set (butlast line). ttype t = Operator \<and> ttext t = ''='') \<and>
         (\<exists>t \<in> set (butlast line). ttype t = Punct \<and> ttext t = ''{'')) \<and>
      ((\<exists>t \<in> set line. ttype t = Keyword \<and>
           (ttext t = ''if'' \<or> ttext t = ''for'' \<or> ttext t = ''while'' \<or> ttext t = ''switch''))
         \<longrightarrow> \<not> (ttype (last line) = Punct \<and> ttext (last line) = '')'')) \<and>
      (ttype (last line) = Identifier \<or> ttype (last line) = Number \<or>
       ttype (last line) = StringLit \<or>
       (ttype (last line) = Punct \<and> (ttext (last line) = '')'' \<or> ttext (last line) = '']''))))"

definition init_line :: "token list" where
  "init_line = [mk_token Identifier ''x'' 1 1, mk_token Operator ''='' 1 3,
     mk_token Punct ''{'' 1 5, mk_token Number ''1'' 1 7, mk_token Punct ''}'' 1 9]"


subsection \<open>Where the lexer can meet the forbidden arrow\<close>

text \<open>A left-to-right scan for \<open>->\<close> that takes every \<open>--\<close> as a pair, the way the
  lexer matches its two-character operators.\<close>

fun arrow_scan :: "string \<Rightarrow> bool" where
  "arrow_scan (c # d # cs) =
     (if c = CHR ''-'' \<and> d = CHR ''>'' then True
      else if c = CHR ''-'' \<and> d = CHR ''-'' then arrow_scan cs
      else arrow_scan (d # cs))"
| "arrow_scan cs = False"

text \<open>The input with every preprocessor line (from \<open>#\<close> to the end of the
  line), every \<open>//\<close> and \<open>/* */\<close> comment and every string literal replaced by
  one blank; the extent of a block comment and of a string literal is the one
  the lexer's own scans give.\<close>

function code_only :: "string \<Rightarrow> string" where
  "code_only [] = []"
| "code_only (c # cs) =
     (if c = CHR ''#'' then CHR '' '' # code_only (dropWhile (\<lambda>x. x \<noteq> LF) cs)
      else if c = CHR ''/'' \<and> cs \<noteq> [] \<and> hd cs = CHR ''/'' then
        CHR '' '' # code_only (dropWhile (\<lambda>x. x \<noteq> LF) (tl cs))
      else if c = CHR ''/'' \<and> cs \<noteq> [] \<and> hd cs = CHR ''*'' then
        CHR '' '' # code_only (fst (skip_block_comment (tl cs) 0 0))
      else if c = DQ then CHR '' '' # code_only (fst (scan_string cs 0 0))
      else c # code_only cs)"
  by pat_completeness auto
termination
proof (relation "measure length", goal_cases)
  case 1
  show ?case by simp
next
  case (2 c cs)
  show ?case using length_dropWhile_le [of "\<lambda>x. x \<noteq> LF" cs] by simp
next
  case (3 c cs)
  show ?case using length_dropWhile_le [of "\<lambda>x. x \<noteq> LF" "tl cs"] by simp
next
  case (4 c cs)
  show ?case using skip_block_comment_length [of "tl cs" 0 0] by simp
next
  case (5 c cs)
  show ?case using scan_string_length [of cs 0 0] by simp
next
  case (6 c cs)
  show ?case by simp
qed


declare code_only.simps [simp del]

subsection \<open>The type-block terminator as the specification states it\<close>

text \<open>A \<open>}\<close> whose assigned scope has kind Struct, Union or Enum.\<close>

definition type_closer :: "scope list \<Rightarrow> token \<Rightarrow> bool" where
  "type_closer scps t =
     (ttype t = Punct \<and> ttext t = ''}'' \<and> 0 \<le> tscope_id t \<and> tscope_id t < int (length scps) \<and>
      (kind (scps ! nat (tscope_id t)) = ''Struct'' \<or> kind (scps ! nat (tscope_id t)) = ''Union'' \<or>
       kind (scps ! nat (tscope_id t)) = ''Enum''))"

text \<open>A lookahead token after which the closer is left alone: an Identifier, a
  \<open>*\<close> Operator, or a \<open>(\<close>, \<open>[\<close> or \<open>;\<close> Punct.\<close>

definition declarator_token :: "token \<Rightarrow> bool" where
  "declarator_token n =
     (ttype n = Identifier \<or> (ttype n = Operator \<and> ttext n = ''*'') \<or>
      (ttype n = Punct \<and> (ttext n = ''('' \<or> ttext n = ''['' \<or> ttext n = '';'')))"

text \<open>The next non-Preprocessor token of a token sequence, if there is one.\<close>

definition next_token :: "token list \<Rightarrow> token option" where
  "next_token ts = (case dropWhile (\<lambda>t. ttype t = Preprocessor) ts of [] \<Rightarrow> None | n # _ \<Rightarrow> Some n)"

text \<open>Whether a \<open>;\<close> is to follow the token \<open>t\<close>, given the tokens after it.\<close>

definition terminator_needed :: "scope list \<Rightarrow> token \<Rightarrow> token list \<Rightarrow> bool" where
  "terminator_needed scps t rest =
     (type_closer scps t \<and>
      (case next_token rest of None \<Rightarrow> True | Some n \<Rightarrow> \<not> declarator_token n))"

text \<open>The pass as section 4.5 of the specification words it, token by token.\<close>

fun terminate_type_blocks :: "scope list \<Rightarrow> token list \<Rightarrow> token list" where
  "terminate_type_blocks scps [] = []"
| "terminate_type_blocks scps (t # rest) =
     (if terminator_needed scps t rest
      then t # t\<lparr>ttype := Punct, ttext := '';''\<rparr> # terminate_type_blocks scps rest
      else t # terminate_type_blocks scps rest)"


subsection \<open>The scope chain\<close>

text \<open>The scopes that the walk of \<open>resolve_ptr_level\<close> from scope \<open>c\<close> can reach:
  \<open>c\<close> itself and, from each scope reached that indexes \<open>scopes\<close>, its parent.\<close>

inductive on_chain :: "scope list \<Rightarrow> int \<Rightarrow> int \<Rightarrow> bool" for scps :: "scope list" and c :: int where
  self: "on_chain scps c c"
| up: "on_chain scps c k \<Longrightarrow> 0 \<le> k \<Longrightarrow> nat k < length scps \<Longrightarrow>
       on_chain scps c (parent (scps ! nat k))"


subsection \<open>Member chains\<close>

text \<open>A member chain is a base (the base identifier with its postfix \<open>[...]\<close> and
  \<open>(...)\<close>) followed by segments, each a dot token and a member token.
  \<open>seg_tokens\<close> are the tokens of the segments as they stand in the line.\<close>

definition seg_tokens :: "(token \<times> token) list \<Rightarrow> token list" where
  "seg_tokens segs = concat (map (\<lambda>(d, f). [d, f]) segs)"

text \<open>Every segment is a Punct \<open>.\<close> followed by an Identifier.\<close>

definition member_segments :: "(token \<times> token) list \<Rightarrow> bool" where
  "member_segments segs =
     list_all (\<lambda>(d, f). ttype d = Punct \<and> ttext d = ''.'' \<and> ttype f = Identifier) segs"

text \<open>The tokens start with one more segment.\<close>

fun starts_member :: "token list \<Rightarrow> bool" where
  "starts_member (d # f # rest) =
     (ttype d = Punct \<and> ttext d = ''.'' \<and> ttype f = Identifier)"
| "starts_member rest = False"

text \<open>The rewritten chain, for a base of effective pointer depth \<open>p\<close>. At depth 1
  the dot of a segment becomes \<open>->\<close>, and the depth stays 1. Above depth 1 the
  chain read so far is wrapped into \<open>( * ... )\<close>, the dot becomes \<open>->\<close>, and the
  depth of the chain with this segment is one less. At depth 0 the segment is
  kept. The inserted \<open>(\<close> and \<open>*\<close> are copies of the first token of the chain, the
  \<open>)\<close> is a copy of the dot, with type and text replaced.\<close>

fun chain_tokens :: "token list \<Rightarrow> (token \<times> token) list \<Rightarrow> nat \<Rightarrow> token list" where
  "chain_tokens base [] p = base"
| "chain_tokens base ((d, f) # segs) p =
     (if p = 1 then
        chain_tokens (base @ [d\<lparr>ttype := Operator, ttext := ''->''\<rparr>, f]) segs 1
      else if p > 1 then
        chain_tokens
          ((hd base)\<lparr>ttype := Punct, ttext := ''(''\<rparr> #
           (hd base)\<lparr>ttype := Operator, ttext := ''*''\<rparr> #
           base @ [d\<lparr>ttype := Punct, ttext := '')''\<rparr>,
                   d\<lparr>ttype := Operator, ttext := ''->''\<rparr>, f])
          segs (p - 1)
      else chain_tokens (base @ [d, f]) segs 0)"


text \<open>Every Identifier among the tokens resolves to no record from scope \<open>s\<close>.\<close>

definition unresolved ::
  "scope list \<Rightarrow> (string \<rightharpoonup> var_info) list \<Rightarrow> int \<Rightarrow> token list \<Rightarrow> bool" where
  "unresolved scps svars s ts =
     list_all (\<lambda>t. ttype t = Identifier \<longrightarrow>
                  resolve_ptr_level scps svars s (ttext t) = Some (999, 0)) ts"


subsection \<open>Example inputs\<close>

text \<open>A single Global scope in which \<open>x\<close> is recorded with pointer level 4 and
  array rank 0 (a declaration \<open>T**** x\<close>), and one in which \<open>p\<close> is recorded with
  pointer level 1.\<close>

definition global_scope :: "scope list" where
  "global_scope = [\<lparr>sid = 0, parent = -1, kind = ''Global'', sname = []\<rparr>]"

definition deep_vars :: "(string \<rightharpoonup> var_info) list" where
  "deep_vars = [[''x'' \<mapsto> \<lparr>pointer_level = 4, array_rank = 0\<rparr>]]"




text \<open>The tokens of a source text, for texts the lexer accepts.\<close>

definition tokens_of :: "string \<Rightarrow> token list" where
  "tokens_of src = (case lex src of Inl e \<Rightarrow> [] | Inr toks \<Rightarrow> toks)"

text \<open>The tokens of a source text after the analysis and the enum cleanup, with
  the scopes of the analysis: the input of the type-block terminator pass.\<close>

definition analysed :: "string \<Rightarrow> token list \<times> scope list" where
  "analysed src =
     (let st = analyze_scopes_and_vars (tokens_of src) builtin_types
      in (remove_semicolons_inside_enums (st_tk st) (st_scopes st), st_scopes st))"







section \<open>Properties of the line normalizer\<close>

lemma has_bsl_bsl_Cons: "d \<noteq> BSL \<Longrightarrow> has_bsl_bsl (d # cs) = has_bsl_bsl cs"
  by (cases cs) auto

lemma crlf_to_lf_hd: "crlf_to_lf (c # cs) = x # xs \<Longrightarrow> x = BSL \<Longrightarrow> c = BSL"
  by (induction cs arbitrary: c x xs) (auto split: if_splits)

lemma crlf_to_lf_no_CR: "CR \<notin> set (crlf_to_lf s)"
  by (induction s rule: crlf_to_lf.induct) auto

lemma remove_continuations_subset: "set (remove_continuations s) \<subseteq> set s"
  by (induction s rule: remove_continuations.induct) auto

lemma crlf_to_lf_id: "CR \<notin> set s \<Longrightarrow> crlf_to_lf s = s"
  by (induction s rule: crlf_to_lf.induct) auto

lemma remove_continuations_id: "\<not> has_bsl_lf s \<Longrightarrow> remove_continuations s = s"
  by (induction s rule: remove_continuations.induct) auto

lemma remove_continuations_shorter: "length (remove_continuations s) \<le> length s"
  by (induction s rule: remove_continuations.induct) auto

lemma remove_continuations_fix: "remove_continuations s = s \<Longrightarrow> \<not> has_bsl_lf s"
proof (induction s rule: remove_continuations.induct)
  case (3 c d cs)
  show ?case
  proof (cases "c = BSL \<and> d = LF")
    case True
    with 3(3) have "remove_continuations cs = c # d # cs" by simp
    then have "length (remove_continuations cs) = Suc (Suc (length cs))" by simp
    with remove_continuations_shorter [of cs] show ?thesis by simp
  next
    case False
    with 3 show ?thesis by auto
  qed
qed simp_all

lemma remove_continuations_Cons: "d \<noteq> BSL \<Longrightarrow> remove_continuations (d # cs) = d # remove_continuations cs"
  by (cases cs) auto

lemma remove_continuations_no_pair:
  "\<not> has_bsl_bsl s \<Longrightarrow> \<not> has_bsl_lf (remove_continuations s)"
proof (induction s rule: remove_continuations.induct)
  case (3 c d cs)
  show ?case
  proof (cases "c = BSL \<and> d = LF")
    case True
    with 3 show ?thesis by (simp add: has_bsl_bsl_Cons)
  next
    case False
    show ?thesis
    proof (cases "c = BSL")
      case True
      with False 3(3) have d: "d \<noteq> LF" "d \<noteq> BSL" by auto
      from 3 False have "\<not> has_bsl_lf (remove_continuations (d # cs))" by auto
      with d True False show ?thesis by (simp add: remove_continuations_Cons)
    next
      case c: False
      from 3 False have "\<not> has_bsl_lf (remove_continuations (d # cs))" by auto
      with c show ?thesis by (cases "remove_continuations (d # cs)") auto
    qed
  qed
qed simp_all

lemma crlf_to_lf_bsl_bsl: "has_bsl_bsl (crlf_to_lf s) \<Longrightarrow> has_bsl_bsl s"
proof (induction s rule: crlf_to_lf.induct)
  case (2 c cs)
  show ?case
  proof (cases cs)
    case Nil
    with 2 show ?thesis by (auto split: if_splits)
  next
    case (Cons d ds)
    show ?thesis
    proof (cases "c = BSL")
      case True
      show ?thesis
      proof (cases "crlf_to_lf cs")
        case Nil
        with 2 True show ?thesis by simp
      next
        case c2: (Cons x xs)
        show ?thesis
        proof (cases "x = BSL")
          case True
          with c2 Cons have "d = BSL" using crlf_to_lf_hd [of d ds x xs] by simp
          with \<open>c = BSL\<close> Cons show ?thesis by simp
        next
          case False
          with 2 True c2 have "has_bsl_bsl (crlf_to_lf cs)" by simp
          with 2 True have "has_bsl_bsl cs" by simp
          with Cons show ?thesis by simp
        qed
      qed
    next
      case False
      with 2 have "has_bsl_bsl cs"
        by (auto simp: has_bsl_bsl_Cons split: if_splits)
      with False show ?thesis by (simp add: has_bsl_bsl_Cons)
    qed
  qed
qed simp

lemma ppl_no_CR: "CR \<notin> set (preprocess_physical_lines s)"
  unfolding preprocess_physical_lines_def
  using remove_continuations_subset [of "crlf_to_lf s"] crlf_to_lf_no_CR [of s] by auto

lemma ppl_fix_iff:
  "CR \<notin> set u \<Longrightarrow> preprocess_physical_lines u = u \<longleftrightarrow> \<not> has_bsl_lf u"
  unfolding preprocess_physical_lines_def
  using remove_continuations_fix [of u] remove_continuations_id [of u]
  by (auto simp: crlf_to_lf_id)

lemma ppl_Nil: "preprocess_physical_lines [] = []"
  by (simp add: preprocess_physical_lines_def)

lemma ppl_CR_LF: "preprocess_physical_lines (CR # LF # t) = LF # preprocess_physical_lines t"
  by (simp add: preprocess_physical_lines_def remove_continuations_Cons)

lemma ppl_CR:
  "t = [] \<or> hd t \<noteq> LF \<Longrightarrow>
     preprocess_physical_lines (CR # t) = LF # preprocess_physical_lines t"
  by (auto simp: preprocess_physical_lines_def remove_continuations_Cons)

lemma ppl_BSL_LF: "preprocess_physical_lines (BSL # LF # t) = preprocess_physical_lines t"
  by (simp add: preprocess_physical_lines_def)

lemma ppl_BSL_CR_LF:
  "preprocess_physical_lines (BSL # CR # LF # t) = preprocess_physical_lines t"
  by (simp add: preprocess_physical_lines_def)

lemma ppl_BSL_CR:
  "t = [] \<or> hd t \<noteq> LF \<Longrightarrow>
     preprocess_physical_lines (BSL # CR # t) = preprocess_physical_lines t"
  by (auto simp: preprocess_physical_lines_def)

lemma ppl_BSL:
  "t = [] \<or> (hd t \<noteq> LF \<and> hd t \<noteq> CR) \<Longrightarrow>
     preprocess_physical_lines (BSL # t) = BSL # preprocess_physical_lines t"
  by (cases t) (auto simp: preprocess_physical_lines_def)

lemma ppl_other:
  "c \<noteq> CR \<Longrightarrow> c \<noteq> BSL \<Longrightarrow>
     preprocess_physical_lines (c # t) = c # preprocess_physical_lines t"
  by (simp add: preprocess_physical_lines_def remove_continuations_Cons)

text \<open>
  Claim C8 (line normalizer), as the code has it. Read from the left, the
  normalizer replaces a CR, LF pair and a lone CR by LF, drops a backslash
  together with the newline that directly follows it (an LF, a CR, LF pair or
  a lone CR), and copies every other byte; these equations determine its result on
  every input. Its output never contains a CR; an input with no CR and no
  backslash directly before LF is returned unchanged; applying the normalizer
  to its own output returns that output exactly when the output holds no
  backslash directly before LF, and this is so whenever the input has no two
  adjacent backslashes.
\<close>

theorem normalizer_properties:
  "preprocess_physical_lines [] = [] \<and>
   preprocess_physical_lines (CR # LF # t) = LF # preprocess_physical_lines t \<and>
   (t = [] \<or> hd t \<noteq> LF \<longrightarrow>
      preprocess_physical_lines (CR # t) = LF # preprocess_physical_lines t) \<and>
   preprocess_physical_lines (BSL # LF # t) = preprocess_physical_lines t \<and>
   preprocess_physical_lines (BSL # CR # LF # t) = preprocess_physical_lines t \<and>
   (t = [] \<or> hd t \<noteq> LF \<longrightarrow>
      preprocess_physical_lines (BSL # CR # t) = preprocess_physical_lines t) \<and>
   (t = [] \<or> (hd t \<noteq> LF \<and> hd t \<noteq> CR) \<longrightarrow>
      preprocess_physical_lines (BSL # t) = BSL # preprocess_physical_lines t) \<and>
   (c \<noteq> CR \<and> c \<noteq> BSL \<longrightarrow>
      preprocess_physical_lines (c # t) = c # preprocess_physical_lines t) \<and>
   CR \<notin> set (preprocess_physical_lines s) \<and>
   (CR \<notin> set s \<and> \<not> has_bsl_lf s \<longrightarrow> preprocess_physical_lines s = s) \<and>
   (preprocess_physical_lines (preprocess_physical_lines s) = preprocess_physical_lines s
      \<longleftrightarrow> \<not> has_bsl_lf (preprocess_physical_lines s)) \<and>
   (\<not> has_bsl_bsl s \<longrightarrow>
      preprocess_physical_lines (preprocess_physical_lines s) = preprocess_physical_lines s)"
proof (intro conjI impI)
  show "preprocess_physical_lines [] = []" by (rule ppl_Nil)
  show "preprocess_physical_lines (CR # LF # t) = LF # preprocess_physical_lines t"
    by (rule ppl_CR_LF)
  show "preprocess_physical_lines (CR # t) = LF # preprocess_physical_lines t"
    if "t = [] \<or> hd t \<noteq> LF"
    using that by (rule ppl_CR)
  show "preprocess_physical_lines (BSL # LF # t) = preprocess_physical_lines t"
    by (rule ppl_BSL_LF)
  show "preprocess_physical_lines (BSL # CR # LF # t) = preprocess_physical_lines t"
    by (rule ppl_BSL_CR_LF)
  show "preprocess_physical_lines (BSL # CR # t) = preprocess_physical_lines t"
    if "t = [] \<or> hd t \<noteq> LF"
    using that by (rule ppl_BSL_CR)
  show "preprocess_physical_lines (BSL # t) = BSL # preprocess_physical_lines t"
    if "t = [] \<or> (hd t \<noteq> LF \<and> hd t \<noteq> CR)"
    using that by (rule ppl_BSL)
  show "preprocess_physical_lines (c # t) = c # preprocess_physical_lines t"
    if "c \<noteq> CR \<and> c \<noteq> BSL"
    using that by (simp add: ppl_other)
  show "CR \<notin> set (preprocess_physical_lines s)" by (rule ppl_no_CR)
  show "preprocess_physical_lines s = s" if "CR \<notin> set s \<and> \<not> has_bsl_lf s"
    using that ppl_fix_iff [of s] by simp
  show a: "preprocess_physical_lines (preprocess_physical_lines s) = preprocess_physical_lines s
      \<longleftrightarrow> \<not> has_bsl_lf (preprocess_physical_lines s)"
    by (rule ppl_fix_iff [OF ppl_no_CR])
  show "preprocess_physical_lines (preprocess_physical_lines s) = preprocess_physical_lines s"
    if "\<not> has_bsl_bsl s"
  proof -
    from that have "\<not> has_bsl_bsl (crlf_to_lf s)" using crlf_to_lf_bsl_bsl by blast
    then have "\<not> has_bsl_lf (preprocess_physical_lines s)"
      unfolding preprocess_physical_lines_def by (rule remove_continuations_no_pair)
    with a show ?thesis by simp
  qed
qed

text \<open>The equations of the theorem leave no freedom: a function that satisfies
  them is the normalizer.\<close>

lemma normalizer_equations_unique:
  assumes e1: "f [] = []"
    and e2: "\<And>t. f (CR # LF # t) = LF # f t"
    and e3: "\<And>t. t = [] \<or> hd t \<noteq> LF \<Longrightarrow> f (CR # t) = LF # f t"
    and e4: "\<And>t. f (BSL # LF # t) = f t"
    and e5: "\<And>t. f (BSL # CR # LF # t) = f t"
    and e6: "\<And>t. t = [] \<or> hd t \<noteq> LF \<Longrightarrow> f (BSL # CR # t) = f t"
    and e7: "\<And>t. t = [] \<or> (hd t \<noteq> LF \<and> hd t \<noteq> CR) \<Longrightarrow> f (BSL # t) = BSL # f t"
    and e8: "\<And>c t. c \<noteq> CR \<Longrightarrow> c \<noteq> BSL \<Longrightarrow> f (c # t) = c # f t"
  shows "f s = preprocess_physical_lines s"
proof (induction "length s" arbitrary: s rule: less_induct)
  case less
  show ?case
  proof (cases s)
    case Nil
    with e1 show ?thesis by (simp add: ppl_Nil)
  next
    case (Cons c t)
    have ih: "f u = preprocess_physical_lines u" if "length u < length s" for u
      using that by (rule less)
    consider (cr_lf) u where "c = CR" "t = LF # u"
      | (cr) "c = CR" "t = [] \<or> hd t \<noteq> LF"
      | (bsl_lf) u where "c = BSL" "t = LF # u"
      | (bsl_cr_lf) u where "c = BSL" "t = CR # LF # u"
      | (bsl_cr) u where "c = BSL" "t = CR # u" "u = [] \<or> hd u \<noteq> LF"
      | (bsl) "c = BSL" "t = [] \<or> (hd t \<noteq> LF \<and> hd t \<noteq> CR)"
      | (other) "c \<noteq> CR" "c \<noteq> BSL"
    proof (cases "c = CR")
      case True
      then show ?thesis using cr_lf cr by (cases t) auto
    next
      case ncr: False
      show ?thesis
      proof (cases "c = BSL")
        case False
        with ncr show ?thesis using other by simp
      next
        case True
        show ?thesis
        proof (cases t)
          case Nil
          with True show ?thesis using bsl by simp
        next
          case t: (Cons d u)
          show ?thesis
          proof (cases "d = LF")
            case True
            with \<open>c = BSL\<close> t show ?thesis using bsl_lf by simp
          next
            case nlf: False
            show ?thesis
            proof (cases "d = CR")
              case False
              with nlf \<open>c = BSL\<close> t show ?thesis using bsl by simp
            next
              case True
              with \<open>c = BSL\<close> t show ?thesis using bsl_cr_lf bsl_cr by (cases u) auto
            qed
          qed
        qed
      qed
    qed
    then show ?thesis
    proof cases
      case cr_lf
      with Cons ih [of u] e2 [of u] show ?thesis by (simp add: ppl_CR_LF)
    next
      case cr
      with Cons ih [of t] e3 [of t] show ?thesis by (simp add: ppl_CR)
    next
      case bsl_lf
      with Cons ih [of u] e4 [of u] show ?thesis by (simp add: ppl_BSL_LF)
    next
      case bsl_cr_lf
      with Cons ih [of u] e5 [of u] show ?thesis by (simp add: ppl_BSL_CR_LF)
    next
      case bsl_cr
      with Cons ih [of u] e6 [of u] show ?thesis by (simp add: ppl_BSL_CR)
    next
      case bsl
      with Cons ih [of t] e7 [of t] show ?thesis by (simp add: ppl_BSL)
    next
      case other
      with Cons ih [of t] e8 [of c t] show ?thesis by (simp add: ppl_other)
    qed
  qed
qed

theorem normalizer_properties_witness:
  "preprocess_physical_lines (''a'' @ [CR, LF] @ ''b'' @ [BSL, LF] @ ''c'' @ [CR] @ ''d'') =
     ''a'' @ [LF] @ ''bc'' @ [LF] @ ''d'' \<and>
   preprocess_physical_lines (''a'' @ [LF] @ ''bc'' @ [LF] @ ''d'') =
     ''a'' @ [LF] @ ''bc'' @ [LF] @ ''d'' \<and>
   preprocess_physical_lines [CR, CHR ''a''] = LF # preprocess_physical_lines ''a'' \<and>
   preprocess_physical_lines [BSL, CR, CHR ''a''] = preprocess_physical_lines ''a'' \<and>
   preprocess_physical_lines [BSL, CHR ''a''] = BSL # preprocess_physical_lines ''a'' \<and>
   preprocess_physical_lines ''xa'' = CHR ''x'' # preprocess_physical_lines ''a''"
  using normalizer_properties
      [of "''a''" "CHR ''x''" "''a'' @ [CR, LF] @ ''b'' @ [BSL, LF] @ ''c'' @ [CR] @ ''d''"]
    normalizer_properties [of "''a''" "CHR ''x''" "''a'' @ [LF] @ ''bc'' @ [LF] @ ''d''"]
  by (simp add: preprocess_physical_lines_def)

text \<open>
  The normalizer is not idempotent on every input: from backslash, backslash,
  LF, LF the second backslash and the first LF are removed, which leaves a
  backslash directly before LF; a second application removes that pair too.
\<close>

theorem normalizer_not_idempotent:
  "preprocess_physical_lines [BSL, BSL, LF, LF] = [BSL, LF] \<and>
   preprocess_physical_lines (preprocess_physical_lines [BSL, BSL, LF, LF]) = [] \<and>
   preprocess_physical_lines (preprocess_physical_lines [BSL, BSL, LF, LF])
     \<noteq> preprocess_physical_lines [BSL, BSL, LF, LF]"
  by (simp add: preprocess_physical_lines_def)


section \<open>The semicolon inserter's line termination\<close>

text \<open>
  Claim C4, as the code has it. \<open>needs_semicolon\<close> holds exactly when the line is
  not empty, its scope kind is not Enum, its first token is not a Preprocessor
  token, its last token is not a \<open>{\<close> or \<open>;\<close> Punct, a last token \<open>}\<close> comes with
  an \<open>=\<close> Operator and a \<open>{\<close> Punct earlier on the line, a line with one of the
  keywords if, for, while, switch does not end in \<open>)\<close>, and the last token is an
  Identifier, Number, StringLit, or a \<open>)\<close>, \<open>]\<close> or \<open>}\<close> Punct. The inserter appends
  \<open>;\<close> exactly then.
\<close>

theorem needs_semicolon_iff:
  "(needs_semicolon line scope_kind \<longleftrightarrow>
      line \<noteq> [] \<and> scope_kind \<noteq> ''Enum'' \<and> ttype (hd line) \<noteq> Preprocessor \<and>
      \<not> (ttype (last line) = Punct \<and> (ttext (last line) = ''{'' \<or> ttext (last line) = '';'')) \<and>
      (ttype (last line) = Punct \<and> ttext (last line) = ''}'' \<longrightarrow>
         (\<exists>t \<in> set (butlast line). ttype t = Operator \<and> ttext t = ''='') \<and>
         (\<exists>t \<in> set (butlast line). ttype t = Punct \<and> ttext t = ''{'')) \<and>
      ((\<exists>t \<in> set line. ttype t = Keyword \<and>
           (ttext t = ''if'' \<or> ttext t = ''for'' \<or> ttext t = ''while'' \<or> ttext t = ''switch''))
         \<longrightarrow> \<not> (ttype (last line) = Punct \<and> ttext (last line) = '')'')) \<and>
      (ttype (last line) = Identifier \<or> ttype (last line) = Number \<or>
       ttype (last line) = StringLit \<or>
       (ttype (last line) = Punct \<and>
          (ttext (last line) = '')'' \<or> ttext (last line) = '']'' \<or> ttext (last line) = ''}'')))) \<and>
   append_semicolon line scope_kind =
     (if needs_semicolon line scope_kind
      then line @ [\<lparr>ttype = Punct, ttext = '';'', tline = tline (last line),
                    tcol = tcol (last line) + 1, tscope_id = 0\<rparr>]
      else line)"
proof (intro conjI)
  show "append_semicolon line scope_kind =
     (if needs_semicolon line scope_kind
      then line @ [\<lparr>ttype = Punct, ttext = '';'', tline = tline (last line),
                    tcol = tcol (last line) + 1, tscope_id = 0\<rparr>]
      else line)"
    by (auto simp: append_semicolon_def needs_semicolon_def)
next
  show "needs_semicolon line scope_kind \<longleftrightarrow>
      line \<noteq> [] \<and> scope_kind \<noteq> ''Enum'' \<and> ttype (hd line) \<noteq> Preprocessor \<and>
      \<not> (ttype (last line) = Punct \<and> (ttext (last line) = ''{'' \<or> ttext (last line) = '';'')) \<and>
      (ttype (last line) = Punct \<and> ttext (last line) = ''}'' \<longrightarrow>
         (\<exists>t \<in> set (butlast line). ttype t = Operator \<and> ttext t = ''='') \<and>
         (\<exists>t \<in> set (butlast line). ttype t = Punct \<and> ttext t = ''{'')) \<and>
      ((\<exists>t \<in> set line. ttype t = Keyword \<and>
           (ttext t = ''if'' \<or> ttext t = ''for'' \<or> ttext t = ''while'' \<or> ttext t = ''switch''))
         \<longrightarrow> \<not> (ttype (last line) = Punct \<and> ttext (last line) = '')'')) \<and>
      (ttype (last line) = Identifier \<or> ttype (last line) = Number \<or>
       ttype (last line) = StringLit \<or>
       (ttype (last line) = Punct \<and>
          (ttext (last line) = '')'' \<or> ttext (last line) = '']'' \<or> ttext (last line) = ''}'')))"
    unfolding needs_semicolon_def
    by (cases "ttype (last line) = Punct \<and> ttext (last line) = ''}''") auto
qed

theorem needs_semicolon_iff_witness:
  "needs_semicolon init_line ''Global'' \<and>
   append_semicolon init_line ''Global'' = init_line @ [\<lparr>ttype = Punct, ttext = '';'', tline = 1, tcol = 10, tscope_id = 0\<rparr>] \<and>
   \<not> needs_semicolon (butlast init_line) ''Enum''"
  using needs_semicolon_iff [of init_line "''Global''"]
    needs_semicolon_iff [of "butlast init_line" "''Enum''"]
  by (simp add: init_line_def mk_token_def)

text \<open>
  With the last conjunct as the specification words it, a line ending in \<open>}\<close>
  could never need a terminator; the code terminates the initializer list
  \<open>x = { 1 }\<close>.
\<close>

theorem claimed_needs_semicolon_fails:
  "needs_semicolon init_line ''Global'' \<and> \<not> claimed_needs_semicolon init_line ''Global''"
  by (simp add: needs_semicolon_def claimed_needs_semicolon_def init_line_def mk_token_def)


section \<open>Properties of the member rewriter\<close>

lemma rmc_loop_skip:
  assumes "i < length line" "ttype (line ! i) = Identifier"
    "resolve_ptr_level scps svars s (ttext (line ! i)) = Some (999, 0)"
  shows "rmc_loop scps svars s line i = rmc_loop scps svars s line (i + 1)"
  using assms by (subst rmc_loop.simps) simp

lemma rmc_loop_non_ident:
  assumes "i < length line" "ttype (line ! i) \<noteq> Identifier"
  shows "rmc_loop scps svars s line i = rmc_loop scps svars s line (i + 1)"
  using assms by (subst rmc_loop.simps) simp

lemma rmc_loop_unknown:
  assumes "\<forall>k. i \<le> k \<and> k < length line \<longrightarrow> ttype (line ! k) = Identifier \<longrightarrow>
             resolve_ptr_level scps svars s (ttext (line ! k)) = Some (999, 0)"
  shows "rmc_loop scps svars s line i = Some line"
  using assms
proof (induction "length line - i" arbitrary: i)
  case 0
  then show ?case by (subst rmc_loop.simps) simp
next
  case (Suc n)
  then have i: "i < length line" by simp
  from Suc have ih: "rmc_loop scps svars s line (i + 1) = Some line" by auto
  show ?case
  proof (cases "ttype (line ! i) = Identifier")
    case True
    with Suc.prems i have "resolve_ptr_level scps svars s (ttext (line ! i)) = Some (999, 0)"
      by auto
    with i True ih show ?thesis by (simp add: rmc_loop_skip)
  next
    case False
    with i ih show ?thesis by (simp add: rmc_loop_non_ident)
  qed
qed




subsection \<open>Member chains\<close>

lemma wrap_base_append:
  assumes "base \<noteq> []"
  shows "wrap_base (pre @ base @ d # rest) (length pre) (length pre + length base) =
     pre @ ((hd base)\<lparr>ttype := Punct, ttext := ''(''\<rparr> #
            (hd base)\<lparr>ttype := Operator, ttext := ''*''\<rparr> #
            base @ [d\<lparr>ttype := Punct, ttext := '')''\<rparr>,
                    d\<lparr>ttype := Operator, ttext := ''->''\<rparr>]) @ rest"
proof -
  from assms obtain b bs where base: "base = b # bs" by (cases base) auto
  define lp where "lp = b\<lparr>ttype := Punct, ttext := ''(''\<rparr>"
  define st where "st = b\<lparr>ttype := Operator, ttext := ''*''\<rparr>"
  define rp where "rp = d\<lparr>ttype := Punct, ttext := '')''\<rparr>"
  let ?line = "pre @ base @ d # rest"
  have i: "?line ! length pre = b" by (simp add: base)
  have j: "?line ! (length pre + length base) = d"
    by (simp add: nth_append)
  have l1: "insert_at ?line (length pre) lp = pre @ lp # base @ d # rest"
    by (simp add: insert_at_def)
  have l2: "insert_at (pre @ lp # base @ d # rest) (length pre + 1) st =
      pre @ lp # st # base @ d # rest"
    by (simp add: insert_at_def)
  have l3: "insert_at (pre @ lp # st # base @ d # rest) (length pre + length base + 2) rp =
      (pre @ lp # st # base) @ rp # d # rest"
  proof -
    have "pre @ lp # st # base @ d # rest = (pre @ lp # st # base) @ d # rest" by simp
    moreover have "length pre + length base + 2 = length (pre @ lp # st # base)" by simp
    ultimately show ?thesis unfolding insert_at_def by (simp del: append_assoc append.simps)
  qed
  have n: "((pre @ lp # st # base) @ rp # d # rest) ! (length pre + length base + 3) = d"
  proof -
    have "length pre + length base + 3 = length ((pre @ lp # st # base) @ [rp])" by simp
    moreover have "(pre @ lp # st # base) @ rp # d # rest =
        ((pre @ lp # st # base) @ [rp]) @ d # rest" by simp
    ultimately show ?thesis by (metis nth_append_length)
  qed
  have u: "((pre @ lp # st # base) @ rp # d # rest)[length pre + length base + 3 := y] =
      (pre @ lp # st # base) @ rp # y # rest" for y
  proof -
    have "length pre + length base + 3 = length ((pre @ lp # st # base) @ [rp])" by simp
    moreover have "(pre @ lp # st # base) @ rp # d # rest =
        ((pre @ lp # st # base) @ [rp]) @ d # rest" by simp
    ultimately have "((pre @ lp # st # base) @ rp # d # rest)[length pre + length base + 3 := y] =
        ((pre @ lp # st # base) @ [rp]) @ y # rest"
      by (metis list_update_length)
    then show ?thesis by simp
  qed
  show ?thesis
    unfolding wrap_base_def Let_def i j lp_def [symmetric] st_def [symmetric] rp_def [symmetric]
      l1 l2 l3 n u
    by (simp add: base lp_def st_def)
qed


lemma seg_tokens_Cons: "seg_tokens ((d, f) # segs) = d # f # seg_tokens segs"
  by (simp add: seg_tokens_def)

lemma seg_tokens_Nil: "seg_tokens [] = []"
  by (simp add: seg_tokens_def)

lemma chain_tokens_not_Nil: "base \<noteq> [] \<Longrightarrow> chain_tokens base segs p \<noteq> []"
  by (induction base segs p rule: chain_tokens.induct) auto

lemma rewrite_dots_stop:
  assumes "\<not> starts_member rest"
  shows "rewrite_dots (xs @ rest) i (length xs) p = (xs @ rest, length xs)"
proof (cases rest)
  case Nil
  then show ?thesis by (subst rewrite_dots.simps) simp
next
  case (Cons d r)
  show ?thesis
  proof (cases r)
    case Nil
    with Cons show ?thesis by (subst rewrite_dots.simps) simp
  next
    case (Cons f r')
    with \<open>rest = d # r\<close> assms
    have "\<not> (ttype d = Punct \<and> ttext d = ''.'' \<and> ttype f = Identifier)" by simp
    moreover have "(xs @ d # f # r') ! length xs = d" by simp
    moreover have "(xs @ d # f # r') ! (length xs + 1) = f"
      by (simp add: nth_append)
    ultimately show ?thesis
      using Cons \<open>rest = d # r\<close> by (subst rewrite_dots.simps) auto
  qed
qed

lemma rewrite_dots_chain:
  assumes "base \<noteq> []" "member_segments segs" "\<not> starts_member rest"
  shows "rewrite_dots (pre @ base @ seg_tokens segs @ rest) (length pre)
           (length pre + length base) p =
         (pre @ chain_tokens base segs p @ rest,
          length pre + length (chain_tokens base segs p))"
  using assms(1,2)
proof (induction segs arbitrary: base p)
  case Nil
  have "rewrite_dots ((pre @ base) @ rest) (length pre) (length (pre @ base)) p =
      ((pre @ base) @ rest, length (pre @ base))"
    using assms(3) by (rule rewrite_dots_stop)
  then show ?case by (simp add: seg_tokens_Nil)
next
  case (Cons seg segs)
  obtain d f where seg: "seg = (d, f)" by (cases seg)
  from Cons.prems(2) seg have df: "ttype d = Punct" "ttext d = ''.''" "ttype f = Identifier"
    and ms: "member_segments segs"
    by (simp_all add: member_segments_def)
  define tl where "tl = seg_tokens segs @ rest"
  let ?line = "pre @ base @ d # f # tl"
  let ?j = "length pre + length base"
  have line: "pre @ base @ seg_tokens (seg # segs) @ rest = ?line"
    by (simp add: seg seg_tokens_Cons tl_def)
  have nj: "?line ! ?j = d" by (simp add: nth_append)
  have nj1: "?line ! (?j + 1) = f" by (simp add: nth_append)
  have c: "?j + 1 < length ?line \<and> ttype (?line ! ?j) = Punct \<and>
      ttext (?line ! ?j) = ''.'' \<and> ttype (?line ! (?j + 1)) = Identifier"
    unfolding nj nj1 using df by simp
  have ih: "rewrite_dots (pre @ b @ tl) (length pre) (length pre + length b) q =
      (pre @ chain_tokens b segs q @ rest, length pre + length (chain_tokens b segs q))"
    if "b \<noteq> []" for b q
    using Cons.IH [OF that ms, of q] by (simp add: tl_def)
  consider (one) "p = 1" | (deep) "p > 1" | (zero) "p = 0" by linarith
  then show ?case
  proof cases
    case one
    define b' where "b' = base @ [d\<lparr>ttype := Operator, ttext := ''->''\<rparr>, f]"
    have upd: "?line[?j := (?line ! ?j)\<lparr>ttype := Operator, ttext := ''->''\<rparr>] = pre @ b' @ tl"
      unfolding nj by (simp add: b'_def list_update_append)
    have len: "?j + 2 = length pre + length b'" by (simp add: b'_def)
    have "rewrite_dots ?line (length pre) ?j p =
        rewrite_dots (pre @ b' @ tl) (length pre) (length pre + length b') 1"
      by (subst rewrite_dots.simps) (simp only: c one if_True upd len, simp)
    also have "\<dots> = (pre @ chain_tokens b' segs 1 @ rest,
        length pre + length (chain_tokens b' segs 1))"
      by (rule ih) (simp add: b'_def)
    finally show ?thesis unfolding line by (simp add: seg one b'_def)
  next
    case deep
    define b' where "b' = (hd base)\<lparr>ttype := Punct, ttext := ''(''\<rparr> #
           (hd base)\<lparr>ttype := Operator, ttext := ''*''\<rparr> #
           base @ [d\<lparr>ttype := Punct, ttext := '')''\<rparr>,
                   d\<lparr>ttype := Operator, ttext := ''->''\<rparr>, f]"
    have wb: "wrap_base ?line (length pre) ?j = pre @ b' @ tl"
      using wrap_base_append [OF Cons.prems(1), of pre d "f # tl"] by (simp add: b'_def)
    have len: "?j + 5 = length pre + length b'" by (simp add: b'_def)
    from deep have ne: "p \<noteq> 1" by simp
    have "rewrite_dots ?line (length pre) ?j p =
        rewrite_dots (pre @ b' @ tl) (length pre) (length pre + length b') (p - 1)"
      by (subst rewrite_dots.simps) (simp only: c deep ne if_True if_False wb len, simp)
    also have "\<dots> = (pre @ chain_tokens b' segs (p - 1) @ rest,
        length pre + length (chain_tokens b' segs (p - 1)))"
      by (rule ih) (simp add: b'_def)
    finally show ?thesis unfolding line using deep by (simp add: seg b'_def)
  next
    case zero
    define b' where "b' = base @ [d, f]"
    have eq: "?line = pre @ b' @ tl" by (simp add: b'_def)
    have len: "?j + 2 = length pre + length b'" by (simp add: b'_def)
    have "rewrite_dots ?line (length pre) ?j p =
        rewrite_dots ?line (length pre) (?j + 2) 0"
      by (subst rewrite_dots.simps) (simp only: c zero if_True, simp)
    also have "\<dots> = rewrite_dots (pre @ b' @ tl) (length pre) (length pre + length b') 0"
      by (simp only: eq [symmetric] len)
    also have "\<dots> = (pre @ chain_tokens b' segs 0 @ rest,
        length pre + length (chain_tokens b' segs 0))"
      by (rule ih) (simp add: b'_def)
    finally show ?thesis unfolding line by (simp add: seg zero b'_def)
  qed
qed




lemma walk_postfix_stop:
  assumes "j < length line \<longrightarrow>
     \<not> (ttype (line ! j) = Punct \<and> (ttext (line ! j) = ''['' \<or> ttext (line ! j) = ''(''))"
  shows "walk_postfix line j p a = (j, p, a)"
  using assms by (subst walk_postfix.simps) auto





lemma rmc_loop_chain:
  assumes x: "ttype x = Identifier"
    and res: "resolve_ptr_level scps svars s (ttext x) = Some (p, r)" "p \<noteq> 999"
    and wp: "walk_postfix (pre @ (x # post) @ seg_tokens segs @ rest) (length pre + 1) p r =
               (length pre + length (x # post), q, r')"
    and segs: "member_segments segs" and rest: "\<not> starts_member rest"
  shows "rmc_loop scps svars s (pre @ (x # post) @ seg_tokens segs @ rest) (length pre) =
         rmc_loop scps svars s (pre @ chain_tokens (x # post) segs q @ rest)
           (length pre + length (chain_tokens (x # post) segs q))"
proof -
  define line where "line = pre @ (x # post) @ seg_tokens segs @ rest"
  define c where "c = chain_tokens (x # post) segs q"
  define i where "i = length pre"
  define j where "j = length pre + length (x # post)"
  define j' where "j' = length pre + length c"
  define line' where "line' = pre @ c @ rest"
  have i: "i < length line" and n: "ttype (line ! i) = Identifier"
    and res': "resolve_ptr_level scps svars s (ttext (line ! i)) = Some (p, r)"
    using x res by (simp_all add: line_def i_def)
  have wp': "walk_postfix line (Suc i) p r = (j, q, r')"
    using wp by (simp add: line_def i_def j_def)
  have rd: "rewrite_dots line i j q = (line', j')"
    unfolding line_def i_def j_def line'_def j'_def c_def
    by (rule rewrite_dots_chain [OF _ segs rest]) simp
  have pos: "0 < j'" using chain_tokens_not_Nil [of "x # post" segs q] by (simp add: j'_def c_def)
  have "rmc_loop scps svars s line i = rmc_loop scps svars s line' j'"
    by (subst rmc_loop.simps) (simp add: i n res' res(2) wp' rd pos)
  then show ?thesis
    unfolding line_def i_def line'_def j'_def c_def .
qed

lemma rmc_loop_skip_prefix:
  assumes "unresolved scps svars s pre" and "i0 \<le> length pre"
  shows "rmc_loop scps svars s (pre @ rest) i0 = rmc_loop scps svars s (pre @ rest) (length pre)"
  using assms(2)
proof (induction "length pre - i0" arbitrary: i0)
  case 0
  then show ?case by simp
next
  case (Suc n)
  then have i: "i0 < length pre" by simp
  then have nth: "(pre @ rest) ! i0 = pre ! i0" by (simp add: nth_append)
  from Suc i have ih: "rmc_loop scps svars s (pre @ rest) (i0 + 1) =
      rmc_loop scps svars s (pre @ rest) (length pre)" by auto
  from assms i have u: "ttype (pre ! i0) = Identifier \<longrightarrow>
      resolve_ptr_level scps svars s (ttext (pre ! i0)) = Some (999, 0)"
    by (simp add: unresolved_def list_all_length)
  show ?case
  proof (cases "ttype (pre ! i0) = Identifier")
    case True
    with u i nth ih show ?thesis using rmc_loop_skip [of i0 "pre @ rest" scps svars s] by simp
  next
    case False
    with i nth ih show ?thesis using rmc_loop_non_ident [of i0 "pre @ rest" scps svars s] by simp
  qed
qed

lemma rmc_loop_unresolved_rest:
  assumes "unresolved scps svars s rest"
  shows "rmc_loop scps svars s (xs @ rest) (length xs) = Some (xs @ rest)"
proof (rule rmc_loop_unknown, intro allI impI)
  fix k
  assume k: "length xs \<le> k \<and> k < length (xs @ rest)" and "ttype ((xs @ rest) ! k) = Identifier"
  then have "ttype (rest ! (k - length xs)) = Identifier" "k - length xs < length rest"
    by (auto simp: nth_append)
  with assms have "resolve_ptr_level scps svars s (ttext (rest ! (k - length xs))) = Some (999, 0)"
    by (simp add: unresolved_def list_all_length)
  with k show "resolve_ptr_level scps svars s (ttext ((xs @ rest) ! k)) = Some (999, 0)"
    by (simp add: nth_append)
qed

lemma rewrite_chain_line:
  assumes x: "ttype x = Identifier"
    and res: "resolve_ptr_level scps svars s (ttext x) = Some (p, r)" "p \<noteq> 999"
    and wp: "walk_postfix (pre @ (x # post) @ seg_tokens segs @ rest) (length pre + 1) p r =
               (length pre + length (x # post), q, r')"
    and segs: "member_segments segs" and rest: "\<not> starts_member rest"
    and pre: "unresolved scps svars s pre" and un: "unresolved scps svars s rest"
  shows "rewrite_member_chains (pre @ (x # post) @ seg_tokens segs @ rest) s scps svars =
         Some (pre @ chain_tokens (x # post) segs q @ rest)"
proof -
  let ?line = "pre @ (x # post) @ seg_tokens segs @ rest"
  let ?c = "chain_tokens (x # post) segs q"
  have "rmc_loop scps svars s ?line 0 = rmc_loop scps svars s ?line (length pre)"
    using rmc_loop_skip_prefix [OF pre, of 0 "(x # post) @ seg_tokens segs @ rest"] by simp
  also have "\<dots> = rmc_loop scps svars s (pre @ ?c @ rest) (length pre + length ?c)"
    using x res wp segs rest by (rule rmc_loop_chain)
  also have "\<dots> = rmc_loop scps svars s ((pre @ ?c) @ rest) (length (pre @ ?c))" by simp
  also have "\<dots> = Some ((pre @ ?c) @ rest)" using un by (rule rmc_loop_unresolved_rest)
  finally show ?thesis by (simp add: rewrite_member_chains_def)
qed

section \<open>Properties of the lexer\<close>

lemma arrow_scan_Cons: "c \<noteq> CHR ''-'' \<Longrightarrow> arrow_scan (c # xs) = arrow_scan xs"
  by (cases xs) auto

lemma arrow_scan_append: "CHR ''-'' \<notin> set w \<Longrightarrow> arrow_scan (w @ xs) = arrow_scan xs"
  by (induction w) (auto simp: arrow_scan_Cons)

lemma code_only_plain:
  "c \<noteq> CHR ''#'' \<Longrightarrow> c \<noteq> DQ \<Longrightarrow> c \<noteq> CHR ''/'' \<Longrightarrow> code_only (c # cs) = c # code_only cs"
  by (simp add: code_only.simps)

lemma code_only_slash:
  "\<not> (cs \<noteq> [] \<and> (hd cs = CHR ''/'' \<or> hd cs = CHR ''*'')) \<Longrightarrow>
     code_only (CHR ''/'' # cs) = CHR ''/'' # code_only cs"
  by (auto simp: code_only.simps)

lemma code_only_append:
  "CHR ''#'' \<notin> set w \<Longrightarrow> DQ \<notin> set w \<Longrightarrow> CHR ''/'' \<notin> set w \<Longrightarrow>
     code_only (w @ xs) = w @ code_only xs"
  by (induction w) (auto simp: code_only_plain)

lemma code_only_hd:
  "\<exists>y ys. code_only (x # xs) = y # ys \<and> (y = x \<or> y = CHR '' '')"
  by (auto simp: code_only.simps)

lemma skip_block_comment_fst:
  "fst (skip_block_comment s l col) = fst (skip_block_comment s l' col')"
proof (induction s arbitrary: l col l' col' rule: induct_list012)
  case 1
  show ?case by simp
next
  case (2 x)
  show ?case by simp
next
  case (3 c d cs)
  show ?case
    using 3(2) [of "l + 1" 1 "l' + 1" 1] 3(2) [of l "col + 1" l' "col' + 1"]
    by simp
qed

lemma scan_string_fst:
  "fst (scan_string s l col) = fst (scan_string s l' col')"
proof (induction s arbitrary: l col l' col' rule: induct_list012)
  case 1
  show ?case by simp
next
  case (2 x)
  show ?case by simp
next
  case (3 c d cs)
  show ?case
    using 3(1) [of l "col + 2" l' "col' + 2"]
      3(2) [of "l + 1" 1 "l' + 1" 1] 3(2) [of l "col + 1" l' "col' + 1"]
    by simp
qed

lemma scan_number_split:
  "\<exists>w. cs = w @ scan_number cs dot \<and> (\<forall>x \<in> set w. isdigit x \<or> x = CHR ''.'')"
proof (induction cs dot rule: scan_number.induct)
  case (1 dot)
  show ?case by simp
next
  case (2 d cs dot)
  show ?case
  proof (cases "isdigit d")
    case True
    with 2 obtain w where "cs = w @ scan_number cs dot" "\<forall>x \<in> set w. isdigit x \<or> x = CHR ''.''"
      by blast
    with True have "d # cs = (d # w) @ scan_number (d # cs) dot \<and> (\<forall>x \<in> set (d # w). isdigit x \<or> x = CHR ''.'')"
      by simp
    then show ?thesis by blast
  next
    case False
    show ?thesis
    proof (cases "d = CHR ''.'' \<and> \<not> dot")
      case True
      with 2 False obtain w where "cs = w @ scan_number cs True" "\<forall>x \<in> set w. isdigit x \<or> x = CHR ''.''"
        by blast
      with True False have "d # cs = (d # w) @ scan_number (d # cs) dot \<and> (\<forall>x \<in> set (d # w). isdigit x \<or> x = CHR ''.'')"
        by simp
      then show ?thesis by blast
    next
      case f2: False
      with False have "d # cs = [] @ scan_number (d # cs) dot" by auto
      then show ?thesis by (metis empty_iff list.set(1))
    qed
  qed
qed

lemma isdigit_chars: "isdigit x \<Longrightarrow> x \<noteq> CHR ''-'' \<and> x \<noteq> CHR ''#'' \<and> x \<noteq> DQ \<and> x \<noteq> CHR ''/''"
  by (auto simp: isdigit_def)

lemma isIdentChar_chars:
  "isIdentChar x \<Longrightarrow> x \<noteq> CHR ''-'' \<and> x \<noteq> CHR ''#'' \<and> x \<noteq> DQ \<and> x \<noteq> CHR ''/''"
  by (auto simp: isIdentChar_def isalpha_def isdigit_def)

lemma isspace_chars:
  "isspace x \<Longrightarrow> x \<noteq> CHR ''-'' \<and> x \<noteq> CHR ''#'' \<and> x \<noteq> DQ \<and> x \<noteq> CHR ''/''"
  by (auto simp: isspace_def)

lemma is_punct_chars:
  "is_punct_char x \<Longrightarrow> x \<noteq> CHR ''-'' \<and> x \<noteq> CHR ''#'' \<and> x \<noteq> DQ \<and> x \<noteq> CHR ''/''"
  by (auto simp: is_punct_char_def)

lemma not_op_chars: "\<not> is_op_char x \<Longrightarrow> x \<noteq> CHR ''-'' \<and> x \<noteq> CHR ''/''"
  by (auto simp: is_op_char_def)

lemma skip_word:
  assumes "c \<noteq> CHR ''-''" "c \<noteq> CHR ''#''" "c \<noteq> DQ" "c \<noteq> CHR ''/''"
    and "cs = w @ rest"
    and "\<forall>x \<in> set w. x \<noteq> CHR ''-'' \<and> x \<noteq> CHR ''#'' \<and> x \<noteq> DQ \<and> x \<noteq> CHR ''/''"
  shows "arrow_scan (code_only (c # cs)) = arrow_scan (code_only rest)"
proof -
  from assms have "code_only (c # cs) = (c # w) @ code_only rest"
    using code_only_append [of "c # w" rest] by auto
  moreover from assms have "CHR ''-'' \<notin> set (c # w)" by auto
  ultimately show ?thesis using arrow_scan_append [of "c # w" "code_only rest"] by simp
qed

lemma skip_plain:
  assumes "c \<noteq> CHR ''-''" "c \<noteq> CHR ''#''" "c \<noteq> DQ" "c \<noteq> CHR ''/''"
  shows "arrow_scan (code_only (c # cs)) = arrow_scan (code_only cs)"
  using skip_word [OF assms, of cs "[]" cs] by simp


lemma lex_step_exit:
  assumes "lex_step c cs l col = Inl e"
  shows "arrow_scan (code_only (c # cs))"
proof -
  from assms have a: "c = CHR ''-''" "cs \<noteq> []" "hd cs = CHR ''>''"
    by (auto simp: lex_step_def split: if_splits prod.splits)
  then obtain cs' where cs: "cs = CHR ''>'' # cs'" by (cases cs) auto
  have "code_only (c # cs) = CHR ''-'' # CHR ''>'' # code_only cs'"
    using a cs by (simp add: code_only_plain)
  then show ?thesis by simp
qed

lemma two_char_ops_cases:
  assumes "[c, d] \<in> set two_char_ops"
  shows "(c = CHR ''-'' \<and> d = CHR ''-'') \<or> (c = CHR ''-'' \<and> d = CHR ''='') \<or>
         (c \<noteq> CHR ''-'' \<and> d \<noteq> CHR ''-'')"
    and "d \<noteq> CHR ''#''" "d \<noteq> DQ" "d \<noteq> CHR ''/''" "c \<noteq> CHR ''#''" "c \<noteq> DQ"
  using assms by (auto simp: two_char_ops_def)

lemma skip_pair:
  assumes "[c, d] \<in> set two_char_ops" "\<not> (c = CHR ''/'' \<and> (d = CHR ''/'' \<or> d = CHR ''*''))"
  shows "arrow_scan (code_only (c # d # cs)) = arrow_scan (code_only cs)"
proof -
  note f = two_char_ops_cases [OF assms(1)]
  have d: "code_only (d # cs) = d # code_only cs" using f by (simp add: code_only_plain)
  have "code_only (c # d # cs) = c # code_only (d # cs)"
  proof (cases "c = CHR ''/''")
    case True
    with assms(2) show ?thesis by (simp add: code_only_slash)
  next
    case False
    with f show ?thesis by (simp add: code_only_plain)
  qed
  with d have e: "code_only (c # d # cs) = c # d # code_only cs" by simp
  from f(1) show ?thesis
  proof (elim disjE)
    assume "c = CHR ''-'' \<and> d = CHR ''-''"
    with e show ?thesis by simp
  next
    assume "c = CHR ''-'' \<and> d = CHR ''=''"
    with e show ?thesis by (simp add: arrow_scan_Cons)
  next
    assume "c \<noteq> CHR ''-'' \<and> d \<noteq> CHR ''-''"
    with e show ?thesis by (simp add: arrow_scan_Cons)
  qed
qed

lemma skip_single_op:
  assumes "c \<noteq> CHR ''#''" "c \<noteq> DQ"
    and "\<not> (c = CHR ''/'' \<and> cs \<noteq> [] \<and> (hd cs = CHR ''/'' \<or> hd cs = CHR ''*''))"
    and "\<not> (cs \<noteq> [] \<and> [c, hd cs] = ''->'')"
    and "\<not> (cs \<noteq> [] \<and> [c, hd cs] \<in> set two_char_ops)"
  shows "arrow_scan (code_only (c # cs)) = arrow_scan (code_only cs)"
proof -
  have e: "code_only (c # cs) = c # code_only cs"
  proof (cases "c = CHR ''/''")
    case True
    with assms(3) show ?thesis by (auto simp: code_only_slash)
  next
    case False
    with assms show ?thesis by (simp add: code_only_plain)
  qed
  show ?thesis
  proof (cases "c = CHR ''-''")
    case False
    with e show ?thesis by (simp add: arrow_scan_Cons)
  next
    case True
    show ?thesis
    proof (cases cs)
      case Nil
      with e show ?thesis by (simp add: code_only.simps)
    next
      case (Cons x xs)
      with assms(4,5) True have x: "x \<noteq> CHR ''>''" "x \<noteq> CHR ''-''"
        by (auto simp: two_char_ops_def)
      from code_only_hd [of x xs] obtain y ys where
        y: "code_only (x # xs) = y # ys" "y = x \<or> y = CHR '' ''" by blast
      with x have "y \<noteq> CHR ''>''" "y \<noteq> CHR ''-''" by auto
      with e True Cons y(1) show ?thesis by simp
    qed
  qed
qed

lemma takeWhile_dropWhile_split:
  "cs = takeWhile P cs @ dropWhile P cs"
  by simp

lemma lex_step_continue:
  assumes "lex_step c cs l col = Inr y"
  shows "arrow_scan (code_only (c # cs)) = arrow_scan (code_only (fst (snd y)))"
proof (cases "c = LF \<or> isspace c")
  case True
  with assms have "fst (snd y) = cs"
    by (cases "c = LF") (auto simp: lex_step_def)
  moreover from True have "c \<noteq> CHR ''-'' \<and> c \<noteq> CHR ''#'' \<and> c \<noteq> DQ \<and> c \<noteq> CHR ''/''"
    using isspace_chars [of c] by auto
  ultimately show ?thesis by (simp add: skip_plain)
next
  case ws: False
  show ?thesis
  proof (cases "c = CHR ''#''")
    case True
    with ws assms have "fst (snd y) = dropWhile (\<lambda>x. x \<noteq> LF) cs" by (auto simp: lex_step_def)
    with True show ?thesis by (simp add: code_only.simps arrow_scan_Cons)
  next
    case hash: False
    show ?thesis
    proof (cases "c = CHR ''/'' \<and> cs \<noteq> [] \<and> hd cs = CHR ''/''")
      case True
      with ws hash assms have "fst (snd y) = dropWhile (\<lambda>x. x \<noteq> LF) (tl cs)"
        by (auto simp: lex_step_def)
      with True show ?thesis by (simp add: code_only.simps arrow_scan_Cons)
    next
      case lc: False
      show ?thesis
      proof (cases "c = CHR ''/'' \<and> cs \<noteq> [] \<and> hd cs = CHR ''*''")
        case True
        with ws hash lc assms have "fst (snd y) = fst (skip_block_comment (tl cs) l (col + 2))"
          by (auto simp: lex_step_def)
        then have "fst (snd y) = fst (skip_block_comment (tl cs) 0 0)"
          using skip_block_comment_fst by simp
        with True show ?thesis by (simp add: code_only.simps arrow_scan_Cons)
      next
        case bc: False
        show ?thesis
        proof (cases "c = DQ")
          case True
          with ws hash lc bc assms have "fst (snd y) = fst (scan_string cs l (col + 1))"
            by (auto simp: lex_step_def split: prod.splits)
          then have "fst (snd y) = fst (scan_string cs 0 0)"
            using scan_string_fst by simp
          with True show ?thesis by (simp add: code_only.simps arrow_scan_Cons)
        next
          case dq: False
          show ?thesis
          proof (cases "isdigit c")
            case True
            with ws hash lc bc dq assms have r: "fst (snd y) = scan_number cs False"
              by (auto simp: lex_step_def)
            from scan_number_split [of cs False] obtain w where
              w: "cs = w @ scan_number cs False" "\<forall>x \<in> set w. isdigit x \<or> x = CHR ''.''"
              by blast
            have "\<forall>x \<in> set w. x \<noteq> CHR ''-'' \<and> x \<noteq> CHR ''#'' \<and> x \<noteq> DQ \<and> x \<noteq> CHR ''/''"
              using w(2) isdigit_chars by auto
            with True w(1) r show ?thesis
              using skip_word [of c cs w "scan_number cs False"] isdigit_chars [of c] by simp
          next
            case dg: False
            show ?thesis
            proof (cases "isIdentStart c")
              case True
              with ws hash lc bc dq dg assms have r: "fst (snd y) = dropWhile isIdentChar cs"
                by (auto simp: lex_step_def)
              have c: "isIdentChar c" using True by (auto simp: isIdentStart_def isIdentChar_def)
              have "\<forall>x \<in> set (takeWhile isIdentChar cs).
                      x \<noteq> CHR ''-'' \<and> x \<noteq> CHR ''#'' \<and> x \<noteq> DQ \<and> x \<noteq> CHR ''/''"
                using isIdentChar_chars by (auto dest: set_takeWhileD)
              with r show ?thesis
                using skip_word [of c cs "takeWhile isIdentChar cs" "dropWhile isIdentChar cs"]
                  isIdentChar_chars [OF c] by simp
            next
              case ident: False
              show ?thesis
              proof (cases "is_op_char c")
                case True
                show ?thesis
                proof (cases "cs \<noteq> [] \<and> [c, hd cs] \<in> set two_char_ops")
                  case pair: True
                  then obtain d cs' where cs: "cs = d # cs'" by (cases cs) auto
                  from assms have na: "\<not> (cs \<noteq> [] \<and> [c, hd cs] = ''->'')"
                    using ws hash lc bc dq dg ident True by (auto simp: lex_step_def)
                  with ws hash lc bc dq dg ident True pair assms have "fst (snd y) = tl cs"
                    by (auto simp: lex_step_def)
                  with cs pair lc bc show ?thesis using skip_pair [of c d cs'] by auto
                next
                  case single: False
                  from assms have na: "\<not> (cs \<noteq> [] \<and> [c, hd cs] = ''->'')"
                    using ws hash lc bc dq dg ident True by (auto simp: lex_step_def)
                  with ws hash lc bc dq dg ident True single assms have "fst (snd y) = cs"
                    by (auto simp: lex_step_def)
                  with hash dq lc bc na single show ?thesis
                    using skip_single_op [of c cs] by auto
                qed
              next
                case op: False
                with ws hash lc bc dq dg ident assms have "fst (snd y) = cs"
                  by (cases "is_punct_char c") (auto simp: lex_step_def)
                with hash dq op show ?thesis using not_op_chars [of c] by (simp add: skip_plain)
              qed
            qed
          qed
        qed
      qed
    qed
  qed
qed

lemma lex_loop_exit_iff: "isl (lex_loop s l col out) \<longleftrightarrow> arrow_scan (code_only s)"
proof (induction s l col out rule: lex_loop.induct)
  case (1 l col out)
  show ?case by (simp add: code_only.simps)
next
  case (2 c cs l col out)
  show ?case
  proof (cases "lex_step c cs l col")
    case (Inl e)
    with lex_step_exit [OF Inl] show ?thesis by simp
  next
    case (Inr y)
    obtain ts rest l' col' where y: "y = (ts, rest, l', col')" by (cases y) auto
    from 2 [OF Inr] y have "isl (lex_loop rest l' col' (out @ ts)) \<longleftrightarrow> arrow_scan (code_only rest)"
      by simp
    with lex_step_continue [OF Inr] Inr y show ?thesis by simp
  qed
qed


section \<open>Properties of the type-block terminator pass\<close>

lemma skip_while_takeWhile:
  "k \<le> length xs \<Longrightarrow>
     skip_while (\<lambda>j. P (xs ! j)) (length xs) k = k + length (takeWhile P (drop k xs))"
proof (induction "length xs - k" arbitrary: k)
  case 0
  then show ?case by (subst skip_while.simps) simp
next
  case (Suc n)
  then have k: "k < length xs" by simp
  then have d: "drop k xs = xs ! k # drop (Suc k) xs" by (simp add: Cons_nth_drop_Suc)
  show ?case
  proof (cases "P (xs ! k)")
    case True
    from Suc k have "skip_while (\<lambda>j. P (xs ! j)) (length xs) (Suc k)
        = Suc k + length (takeWhile P (drop (Suc k) xs))" by auto
    with True k d show ?thesis by (subst skip_while.simps) simp
  next
    case False
    with k d show ?thesis by (subst skip_while.simps) simp
  qed
qed

lemma declarator_follows_next:
  assumes "i < length toks"
  shows "declarator_follows toks i =
     (case next_token (drop (Suc i) toks) of None \<Rightarrow> False | Some n \<Rightarrow> declarator_token n)"
proof -
  let ?P = "\<lambda>t. ttype t = Preprocessor"
  let ?ys = "drop (Suc i) toks"
  let ?n = "length (takeWhile ?P ?ys)"
  have j: "skip_while (\<lambda>j. ?P (toks ! j)) (length toks) (i + 1) = Suc i + ?n"
    using assms skip_while_takeWhile [of "Suc i" toks ?P] by simp
  have dw: "dropWhile ?P ?ys = drop ?n ?ys" by (rule dropWhile_eq_drop)
  show ?thesis
  proof (cases "Suc i + ?n < length toks")
    case True
    then have "?n < length ?ys" by simp
    then have "drop ?n ?ys = ?ys ! ?n # drop (Suc ?n) ?ys" by (simp only: Cons_nth_drop_Suc)
    moreover have "?ys ! ?n = toks ! (Suc i + ?n)" using True by simp
    ultimately show ?thesis
      using True j dw
      by (simp add: declarator_follows_def next_token_def declarator_token_def Let_def)
  next
    case False
    then have "drop ?n ?ys = []" by simp
    with dw have "dropWhile ?P ?ys = []" by simp
    with False j show ?thesis
      by (simp only: declarator_follows_def next_token_def Let_def) simp
  qed
qed

lemma type_block_closer_iff:
  "type_block_closer scps toks i = type_closer scps (toks ! i)"
  by (auto simp: type_block_closer_def type_closer_def)

lemma insertion_test:
  assumes "i < length toks"
  shows "(type_block_closer scps toks i \<and> \<not> declarator_follows toks i) =
     terminator_needed scps (toks ! i) (drop (Suc i) toks)"
  using assms
  by (auto simp: type_block_closer_iff declarator_follows_next terminator_needed_def
      split: option.splits)

lemma astb_loop_refines:
  "i \<le> length toks \<Longrightarrow>
     astb_loop scps toks i = take i toks @ terminate_type_blocks scps (drop i toks)"
proof (induction scps toks i rule: astb_loop.induct)
  case (1 scps toks i)
  show ?case
  proof (cases "i < length toks")
    case False
    with 1 show ?thesis by (subst astb_loop.simps) simp
  next
    case True
    then have d: "drop i toks = toks ! i # drop (Suc i) toks" by (simp add: Cons_nth_drop_Suc)
    have t: "take (Suc i) toks = take i toks @ [toks ! i]" using True by (simp add: take_Suc_conv_app_nth)
    show ?thesis
    proof (cases "terminator_needed scps (toks ! i) (drop (Suc i) toks)")
      case needed: True
      let ?toks' = "insert_at toks (i + 1) ((toks ! i)\<lparr>ttype := Punct, ttext := '';''\<rparr>)"
      from needed True have c: "type_block_closer scps toks i \<and> \<not> declarator_follows toks i"
        by (simp add: insertion_test)
      have tk: "take (i + 2) ?toks' = take i toks @ [toks ! i, (toks ! i)\<lparr>ttype := Punct, ttext := '';''\<rparr>]"
        using True t by (simp add: insert_at_def)
      have dr: "drop (i + 2) ?toks' = drop (Suc i) toks"
        using True by (simp add: insert_at_def)
      from 1(1) [OF True c] True
      have "astb_loop scps ?toks' (i + 2) = take (i + 2) ?toks' @ terminate_type_blocks scps (drop (i + 2) ?toks')"
        by simp
      with True c tk dr d needed show ?thesis
        by (subst astb_loop.simps) simp
    next
      case not_needed: False
      with True have c: "\<not> (type_block_closer scps toks i \<and> \<not> declarator_follows toks i)"
        by (simp add: insertion_test)
      from 1(2) [OF True c] True
      have "astb_loop scps toks (i + 1) = take (i + 1) toks @ terminate_type_blocks scps (drop (i + 1) toks)"
        by simp
      with True c t d not_needed show ?thesis
        by (subst astb_loop.simps) auto
    qed
  qed
qed

lemma add_semicolon_refines:
  "add_semicolon_after_type_blocks toks scps = terminate_type_blocks scps toks"
  by (simp add: add_semicolon_after_type_blocks_def astb_loop_refines)

lemma terminate_positions:
  "terminate_type_blocks scps toks =
     concat (map (\<lambda>i. if terminator_needed scps (toks ! i) (drop (Suc i) toks)
                      then [toks ! i, (toks ! i)\<lparr>ttype := Punct, ttext := '';''\<rparr>]
                      else [toks ! i]) [0..<length toks])"
proof (induction toks)
  case Nil
  show ?case by simp
next
  case (Cons t rest)
  have "[0..<length (t # rest)] = 0 # map Suc [0..<length rest]"
    by (simp add: upt_conv_Cons map_Suc_upt del: upt_Suc)
  then show ?case using Cons by (simp add: comp_def del: upt_Suc cong: if_cong)
qed

lemma terminate_unchanged:
  "(\<forall>i < length toks. \<not> terminator_needed scps (toks ! i) (drop (Suc i) toks)) \<Longrightarrow>
     terminate_type_blocks scps toks = toks"
proof (induction toks)
  case Nil
  show ?case by simp
next
  case (Cons t rest)
  from Cons.prems have "\<not> terminator_needed scps t rest" by auto
  moreover from Cons.prems have "\<forall>i < length rest. \<not> terminator_needed scps (rest ! i) (drop (Suc i) rest)"
    by auto
  ultimately show ?case using Cons.IH by simp
qed

lemma next_token_terminate:
  "next_token (terminate_type_blocks scps rest) = next_token rest"
proof (induction rest)
  case Nil
  show ?case by simp
next
  case (Cons r rs)
  show ?case
  proof (cases "ttype r = Preprocessor")
    case True
    then have "\<not> terminator_needed scps r rs" by (simp add: terminator_needed_def type_closer_def)
    with True Cons show ?thesis by (simp add: next_token_def)
  next
    case False
    then show ?thesis by (simp add: next_token_def)
  qed
qed

lemma terminate_idempotent:
  "terminate_type_blocks scps (terminate_type_blocks scps toks) = terminate_type_blocks scps toks"
proof (induction toks)
  case Nil
  show ?case by simp
next
  case (Cons t rest)
  let ?semi = "t\<lparr>ttype := Punct, ttext := '';''\<rparr>"
  show ?case
  proof (cases "terminator_needed scps t rest")
    case True
    have a: "\<not> terminator_needed scps t (?semi # terminate_type_blocks scps rest)"
      by (simp add: terminator_needed_def next_token_def declarator_token_def)
    have b: "\<not> terminator_needed scps ?semi (terminate_type_blocks scps rest)"
      by (simp add: terminator_needed_def type_closer_def)
    from True a b Cons show ?thesis by simp
  next
    case False
    then have "\<not> terminator_needed scps t (terminate_type_blocks scps rest)"
      by (simp add: terminator_needed_def next_token_terminate)
    with False Cons show ?thesis by simp
  qed
qed


section \<open>Properties of the parameter deposit\<close>

lemma deposit_param_rank:
  assumes "\<forall>n vi. m n = Some vi \<longrightarrow> array_rank vi = 0"
    and "deposit_param m p n = Some vi"
  shows "array_rank vi = 0"
  using assms
  by (auto simp: deposit_param_def default_VarInfo_def Let_def split: if_splits option.splits)

lemma foldl_deposit_param_rank:
  assumes "\<forall>n vi. m n = Some vi \<longrightarrow> array_rank vi = 0"
    and "foldl deposit_param m ps n = Some vi"
  shows "array_rank vi = 0"
  using assms
proof (induction ps arbitrary: m)
  case Nil
  then show ?case by simp
next
  case (Cons p ps)
  have "\<forall>n vi. deposit_param m p n = Some vi \<longrightarrow> array_rank vi = 0"
    using Cons.prems(1) deposit_param_rank by blast
  with Cons.IH [of "deposit_param m p"] Cons.prems(2) show ?case by simp
qed

lemma scope_open_rank:
  assumes "is_p (st_tk st) i ''{''" and "last (st_scope_vars (scope_open i st)) n = Some vi"
  shows "array_rank vi = 0"
proof (cases "st_params_at_lbrace st i")
  case None
  with assms show ?thesis by (simp add: scope_open_def)
next
  case (Some ps)
  with assms have "foldl deposit_param Map.empty ps n = Some vi" by (simp add: scope_open_def)
  then show ?thesis using foldl_deposit_param_rank [of Map.empty ps n vi] by simp
qed








section \<open>The three-line scenarios\<close>

text \<open>
  Claim C1 (input \<open>Vec2* p\<close>, newline, \<open>p.x = 3\<close>, newline, with no type known but
  the built-in ones). The relaxed declaration detector does not accept the
  first line: the token after the declarator \<open>p\<close> is the \<open>p\<close> of the next line,
  which is none of \<open>;\<close>, \<open>,\<close>, \<open>[\<close>, \<open>=\<close>, \<open>{\<close>. No variable is recorded, the dot is
  kept, and the emitter puts a blank before every token but \<open>,\<close>, \<open>)\<close>, \<open>]\<close> and
  \<open>;\<close>. The text written is \<open>Vec2 * p;\<close>, newline, \<open>p . x = 3;\<close>, newline.
\<close>

theorem pointer_scenario_output:
  "detect_relaxed_declaration (tokens_of (''Vec2* p'' @ [LF] @ ''p.x = 3'' @ [LF])) 0 = None \<and>
   translate_file builtin_types (''Vec2* p'' @ [LF] @ ''p.x = 3'' @ [LF]) =
     Inr (Some (''Vec2 * p;'' @ [LF] @ ''p . x = 3;'' @ [LF], builtin_types))"
  by code_simp


text \<open>
  Claim C6 (typedef observation) on \<open>typedef struct { int x; } T;\<close>. The scan
  after \<open>typedef\<close> stops at the first \<open>;\<close>, which is inside the struct body, so
  the identifier added to the known-type set is the field name \<open>x\<close>; \<open>T\<close> is not
  added, neither here nor later in the file.
\<close>

theorem typedef_struct_known_types:
  "translate_file builtin_types (''typedef struct { int x; } T;'' @ [LF]) =
     Inr (Some (''typedef struct { int x; } T;'' @ [LF], insert ''x'' builtin_types)) \<and>
   ''T'' \<notin> insert ''x'' builtin_types \<and>
   st_known_types (analyze_scopes_and_vars (tokens_of ''typedef unsigned long ulong;'')
     builtin_types) = insert ''ulong'' builtin_types"
  by code_simp


text \<open>
  Claim C7 (emitter spacing) on the tokens \<open>p -> x ( y ) . z [ 0 ]\<close>. The
  emitter leaves out the blank only before \<open>,\<close>, \<open>)\<close>, \<open>]\<close> and \<open>;\<close> and at the start
  of the line: there is a blank after \<open>(\<close> and \<open>[\<close> and on both sides of \<open>.\<close> and
  \<open>->\<close>.
\<close>

theorem emit_line_spacing:
  "emit_line [mk_token Identifier ''p'' 1 1, mk_token Operator ''->'' 1 2,
              mk_token Identifier ''x'' 1 4, mk_token Punct ''('' 1 5,
              mk_token Identifier ''y'' 1 6, mk_token Punct '')'' 1 7,
              mk_token Punct ''.'' 1 8, mk_token Identifier ''z'' 1 9,
              mk_token Punct ''['' 1 10, mk_token Number ''0'' 1 11,
              mk_token Punct '']'' 1 12, mk_token Punct '';'' 1 13] =
     ''p -> x ( y) . z [ 0];'' @ [LF]"
  by code_simp


section \<open>The member rewriter on pointers of depth four\<close>

text \<open>
  Claim C3, as the code has it. Let the identifier \<open>x\<close> resolve to pointer level 4
  and array rank 0, and let it be followed by a chain of one or more
  \<open>. member\<close> segments that no further \<open>. identifier\<close> continues. When the scan
  of the rewriter reaches \<open>x\<close>, whatever stands before it, it replaces the chain
  by \<open>chain_tokens [x] segs 4\<close> and goes on behind it: each of the first three
  segments wraps the chain read so far into \<open>( * ... )\<close> and turns its dot
  into \<open>->\<close>, which takes one level off the effective depth; from depth 1 on
  every further dot becomes \<open>->\<close> with no wrapping. When the Identifier tokens
  before \<open>x\<close> and behind the chain resolve to no record, this is the only edit
  of the line. In particular the single access \<open>x.f\<close> becomes \<open>( * x ) -> f\<close>,
  with one wrapping; the inserted \<open>(\<close> and \<open>*\<close> are copies of the base token and
  the \<open>)\<close> is a copy of the dot token, with type and text replaced.
\<close>

theorem deep_pointer_chain:
  assumes "ttype x = Identifier"
    and "resolve_ptr_level scps svars s (ttext x) = Some (4, 0)"
    and "\<not> starts_member rest"
  shows
    "(segs \<noteq> [] \<and> member_segments segs \<longrightarrow>
        rmc_loop scps svars s (pre @ x # seg_tokens segs @ rest) (length pre) =
        rmc_loop scps svars s (pre @ chain_tokens [x] segs 4 @ rest)
          (length pre + length (chain_tokens [x] segs 4))) \<and>
     (segs \<noteq> [] \<and> member_segments segs \<and>
      unresolved scps svars s pre \<and> unresolved scps svars s rest \<longrightarrow>
        rewrite_member_chains (pre @ x # seg_tokens segs @ rest) s scps svars =
        Some (pre @ chain_tokens [x] segs 4 @ rest)) \<and>
     (ttype d = Punct \<and> ttext d = ''.'' \<and> ttype f = Identifier \<and>
      unresolved scps svars s pre \<and> unresolved scps svars s rest \<longrightarrow>
        rewrite_member_chains (pre @ x # d # f # rest) s scps svars =
        Some (pre @ x\<lparr>ttype := Punct, ttext := ''(''\<rparr> # x\<lparr>ttype := Operator, ttext := ''*''\<rparr> #
                x # d\<lparr>ttype := Punct, ttext := '')''\<rparr> #
                d\<lparr>ttype := Operator, ttext := ''->''\<rparr> # f # rest))"
proof -
  have wp: "walk_postfix (pre @ (x # []) @ seg_tokens sg @ rest) (length pre + 1) 4 0 =
      (length pre + length (x # []), 4, 0)"
    if "sg \<noteq> []" "member_segments sg" for sg
  proof -
    from that obtain d' f' sg' where sg: "sg = (d', f') # sg'" by (cases sg) auto
    with that(2) have d': "ttype d' = Punct" "ttext d' = ''.''"
      by (simp_all add: member_segments_def)
    have "(pre @ (x # []) @ seg_tokens sg @ rest) ! (length pre + 1) = d'"
      by (simp add: sg seg_tokens_Cons nth_append)
    with d' have "walk_postfix (pre @ (x # []) @ seg_tokens sg @ rest) (length pre + 1) 4 0 =
        (length pre + 1, 4, 0)"
      by (intro walk_postfix_stop) simp
    then show ?thesis by simp
  qed
  have loop: "rmc_loop scps svars s (pre @ x # seg_tokens sg @ rest) (length pre) =
        rmc_loop scps svars s (pre @ chain_tokens [x] sg 4 @ rest)
          (length pre + length (chain_tokens [x] sg 4))"
    if "sg \<noteq> []" "member_segments sg" for sg
    using rmc_loop_chain [OF assms(1,2) _ wp [OF that] that(2) assms(3)] by simp
  have whole: "rewrite_member_chains (pre @ x # seg_tokens sg @ rest) s scps svars =
        Some (pre @ chain_tokens [x] sg 4 @ rest)"
    if "sg \<noteq> []" "member_segments sg" "unresolved scps svars s pre" "unresolved scps svars s rest"
    for sg
    using rewrite_chain_line [OF assms(1,2) _ wp [OF that(1,2)] that(2) assms(3) that(3,4)]
    by simp
  have single: "rewrite_member_chains (pre @ x # d # f # rest) s scps svars =
        Some (pre @ x\<lparr>ttype := Punct, ttext := ''(''\<rparr> # x\<lparr>ttype := Operator, ttext := ''*''\<rparr> #
                x # d\<lparr>ttype := Punct, ttext := '')''\<rparr> #
                d\<lparr>ttype := Operator, ttext := ''->''\<rparr> # f # rest)"
    if "ttype d = Punct" "ttext d = ''.''" "ttype f = Identifier"
      "unresolved scps svars s pre" "unresolved scps svars s rest"
    using whole [of "[(d, f)]"] that by (simp add: member_segments_def seg_tokens_def)
  from loop whole single show ?thesis by blast
qed

lemma resolve_deep:
  "resolve_ptr_level global_scope deep_vars 0 ''x'' = Some (4, 0) \<and>
   resolve_ptr_level global_scope deep_vars 0 ''y'' = Some (999, 0)"
  by (simp add: resolve_ptr_level.simps global_scope_def deep_vars_def)

lemma deep_chain_example:
  "map ttext (chain_tokens [mk_token Identifier ''x'' 2 5]
     [(mk_token Punct ''.'' 2 6, mk_token Identifier ''f'' 2 7),
      (mk_token Punct ''.'' 2 8, mk_token Identifier ''g'' 2 9),
      (mk_token Punct ''.'' 2 10, mk_token Identifier ''h'' 2 11),
      (mk_token Punct ''.'' 2 12, mk_token Identifier ''k'' 2 13),
      (mk_token Punct ''.'' 2 14, mk_token Identifier ''m'' 2 15)] 4) =
   [''('', ''*'', ''('', ''*'', ''('', ''*'', ''x'', '')'', ''->'', ''f'', '')'', ''->'', ''g'',
    '')'', ''->'', ''h'', ''->'', ''k'', ''->'', ''m'']"
  by code_simp

theorem deep_pointer_chain_witness:
  "rewrite_member_chains
     [mk_token Identifier ''y'' 2 1, mk_token Operator ''='' 2 3,
      mk_token Identifier ''x'' 2 5, mk_token Punct ''.'' 2 6, mk_token Identifier ''f'' 2 7,
      mk_token Operator ''+'' 2 9, mk_token Number ''3'' 2 11] 0 global_scope deep_vars =
   Some [mk_token Identifier ''y'' 2 1, mk_token Operator ''='' 2 3,
         \<lparr>ttype = Punct, ttext = ''('', tline = 2, tcol = 5, tscope_id = 0\<rparr>,
         \<lparr>ttype = Operator, ttext = ''*'', tline = 2, tcol = 5, tscope_id = 0\<rparr>,
         mk_token Identifier ''x'' 2 5,
         \<lparr>ttype = Punct, ttext = '')'', tline = 2, tcol = 6, tscope_id = 0\<rparr>,
         \<lparr>ttype = Operator, ttext = ''->'', tline = 2, tcol = 6, tscope_id = 0\<rparr>,
         mk_token Identifier ''f'' 2 7,
         mk_token Operator ''+'' 2 9, mk_token Number ''3'' 2 11] \<and>
   map_option (map ttext)
     (rewrite_member_chains
       [mk_token Identifier ''y'' 2 1, mk_token Operator ''='' 2 3,
        mk_token Identifier ''x'' 2 5,
        mk_token Punct ''.'' 2 6, mk_token Identifier ''f'' 2 7,
        mk_token Punct ''.'' 2 8, mk_token Identifier ''g'' 2 9,
        mk_token Punct ''.'' 2 10, mk_token Identifier ''h'' 2 11,
        mk_token Punct ''.'' 2 12, mk_token Identifier ''k'' 2 13,
        mk_token Punct ''.'' 2 14, mk_token Identifier ''m'' 2 15,
        mk_token Punct '';'' 2 16] 0 global_scope deep_vars) =
   Some [''y'', ''='', ''('', ''*'', ''('', ''*'', ''('', ''*'', ''x'', '')'', ''->'', ''f'',
         '')'', ''->'', ''g'', '')'', ''->'', ''h'', ''->'', ''k'', ''->'', ''m'', '';'']"
  using deep_pointer_chain
    [of "mk_token Identifier ''x'' 2 5" global_scope deep_vars 0
        "[mk_token Operator ''+'' 2 9, mk_token Number ''3'' 2 11]"
        "[(mk_token Punct ''.'' 2 6, mk_token Identifier ''f'' 2 7)]"
        "[mk_token Identifier ''y'' 2 1, mk_token Operator ''='' 2 3]"
        "mk_token Punct ''.'' 2 6" "mk_token Identifier ''f'' 2 7"]
    deep_pointer_chain
    [of "mk_token Identifier ''x'' 2 5" global_scope deep_vars 0
        "[mk_token Punct '';'' 2 16]"
        "[(mk_token Punct ''.'' 2 6, mk_token Identifier ''f'' 2 7),
          (mk_token Punct ''.'' 2 8, mk_token Identifier ''g'' 2 9),
          (mk_token Punct ''.'' 2 10, mk_token Identifier ''h'' 2 11),
          (mk_token Punct ''.'' 2 12, mk_token Identifier ''k'' 2 13),
          (mk_token Punct ''.'' 2 14, mk_token Identifier ''m'' 2 15)]"
        "[mk_token Identifier ''y'' 2 1, mk_token Operator ''='' 2 3]"
        "mk_token Punct ''.'' 2 6" "mk_token Identifier ''f'' 2 7"]
    resolve_deep deep_chain_example
  by (simp add: mk_token_def unresolved_def member_segments_def seg_tokens_def)

text \<open>
  The rewrite of \<open>x.f\<close> for a declaration \<open>Vec2**** x\<close> is not
  \<open>( * ( * ( * x ) ) ) -> f\<close>: the token texts of the rewritten line are
  \<open>( * x ) -> f\<close>, and the file \<open>Vec2**** x;\<close>, newline, \<open>x.f\<close>, newline is
  translated with a single wrapping.
\<close>

theorem deep_pointer_not_three_wraps:
  "map_option (map ttext)
     (rewrite_member_chains
        [mk_token Identifier ''x'' 2 1, mk_token Punct ''.'' 2 2, mk_token Identifier ''f'' 2 3]
        0 global_scope deep_vars) = Some [''('', ''*'', ''x'', '')'', ''->'', ''f''] \<and>
   [''('', ''*'', ''x'', '')'', ''->'', ''f''] \<noteq>
     [''('', ''*'', ''('', ''*'', ''('', ''*'', ''x'', '')'', '')'', '')'', ''->'', ''f''] \<and>
   translate_file builtin_types (''Vec2**** x;'' @ [LF] @ ''x.f'' @ [LF]) =
     Inr (Some (''Vec2 * * * * x;'' @ [LF] @ ''( * x) -> f;'' @ [LF], builtin_types))"
  by code_simp


section \<open>The member rewriter on unresolved identifiers\<close>








section \<open>Function parameters and subscripts\<close>







section \<open>The type-block terminator pass, token by token\<close>

text \<open>
  Claim C5. The pass copies every token and puts a \<open>;\<close> Punct directly after a
  token exactly when that token is a \<open>}\<close> whose scope has kind Struct, Union or
  Enum and the next non-Preprocessor token after it is not an Identifier, a
  \<open>*\<close> Operator, or a \<open>(\<close>, \<open>[\<close> or \<open>;\<close> Punct (or there is no such token). A
  token sequence in which no closer needs a terminator is returned unchanged,
  and the pass changes nothing on its own output. The one-line file
  \<open>struct S { int x; int y; }\<close> is written as \<open>struct S { int x; int y; };\<close>.
\<close>

theorem type_block_terminator:
  "add_semicolon_after_type_blocks toks scps =
     concat (map (\<lambda>i. if terminator_needed scps (toks ! i) (drop (Suc i) toks)
                      then [toks ! i, (toks ! i)\<lparr>ttype := Punct, ttext := '';''\<rparr>]
                      else [toks ! i]) [0..<length toks]) \<and>
   ((\<forall>i \<in> {0..<length toks}. \<not> terminator_needed scps (toks ! i) (drop (Suc i) toks)) \<longrightarrow>
      add_semicolon_after_type_blocks toks scps = toks) \<and>
   add_semicolon_after_type_blocks (add_semicolon_after_type_blocks toks scps) scps =
     add_semicolon_after_type_blocks toks scps \<and>
   translate_file builtin_types (''struct S { int x; int y; }'' @ [LF]) =
     Inr (Some (''struct S { int x; int y; };'' @ [LF], insert ''S'' builtin_types))"
proof (intro conjI impI)
  show "add_semicolon_after_type_blocks toks scps =
     concat (map (\<lambda>i. if terminator_needed scps (toks ! i) (drop (Suc i) toks)
                      then [toks ! i, (toks ! i)\<lparr>ttype := Punct, ttext := '';''\<rparr>]
                      else [toks ! i]) [0..<length toks])"
    unfolding add_semicolon_refines by (rule terminate_positions)
  show "add_semicolon_after_type_blocks toks scps = toks"
    if "\<forall>i \<in> {0..<length toks}. \<not> terminator_needed scps (toks ! i) (drop (Suc i) toks)"
    unfolding add_semicolon_refines using that by (intro terminate_unchanged) simp
  show "add_semicolon_after_type_blocks (add_semicolon_after_type_blocks toks scps) scps =
     add_semicolon_after_type_blocks toks scps"
    unfolding add_semicolon_refines by (rule terminate_idempotent)
  show "translate_file builtin_types (''struct S { int x; int y; }'' @ [LF]) =
     Inr (Some (''struct S { int x; int y; };'' @ [LF], insert ''S'' builtin_types))"
    by code_simp
qed

lemma terminated_struct_example:
  "\<forall>i \<in> {0..<length (fst (analysed ''struct S { int x; } v;''))}.
     \<not> terminator_needed (snd (analysed ''struct S { int x; } v;''))
         (fst (analysed ''struct S { int x; } v;'') ! i)
         (drop (Suc i) (fst (analysed ''struct S { int x; } v;'')))"
  by code_simp

lemma struct_example_texts:
  "map ttext (fst (analysed ''struct S { int x; } v;'')) =
     [''struct'', ''S'', ''{'', ''int'', ''x'', '';'', ''}'', ''v'', '';''] \<and>
   map ttext (add_semicolon_after_type_blocks (fst (analysed ''enum E { A, B }''))
      (snd (analysed ''enum E { A, B }''))) =
     [''enum'', ''E'', ''{'', ''A'', '','', ''B'', ''}'', '';'']"
  by code_simp

theorem type_block_terminator_witness:
  "add_semicolon_after_type_blocks (fst (analysed ''struct S { int x; } v;''))
      (snd (analysed ''struct S { int x; } v;'')) = fst (analysed ''struct S { int x; } v;'') \<and>
   map ttext (fst (analysed ''struct S { int x; } v;'')) =
     [''struct'', ''S'', ''{'', ''int'', ''x'', '';'', ''}'', ''v'', '';''] \<and>
   map ttext (add_semicolon_after_type_blocks (fst (analysed ''enum E { A, B }''))
      (snd (analysed ''enum E { A, B }''))) =
     [''enum'', ''E'', ''{'', ''A'', '','', ''B'', ''}'', '';'']"
  using type_block_terminator
    [of "fst (analysed ''struct S { int x; } v;'')" "snd (analysed ''struct S { int x; } v;'')"]
    terminated_struct_example struct_example_texts
  by blast


section \<open>The forbidden arrow\<close>

text \<open>
  Claim C2, as the code has it. The translation of a file ends in the exit with
  code 2, in the lexer and so before any later pass and before any output,
  exactly when the scan that takes every \<open>--\<close> as a pair finds \<open>->\<close> in the
  normalized input with its preprocessor lines, comments and string literals
  blanked. So a \<open>->\<close> inside a comment, a string literal or a preprocessor line,
  or one made of the second \<open>-\<close> of a \<open>--\<close> and a following \<open>>\<close>, does not end the
  translation.
\<close>

theorem arrow_rejection:
  "((\<exists>e. translate_file known src = Inl e \<and> exit_code e = 2) \<longleftrightarrow>
      arrow_scan (code_only (preprocess_physical_lines src))) \<and>
   (translate_file known src = Inl e \<longleftrightarrow> lex (preprocess_physical_lines src) = Inl e) \<and>
   (isl (lex s) \<longleftrightarrow> arrow_scan (code_only s))"
proof (intro conjI)
  show b: "translate_file known src = Inl e \<longleftrightarrow> lex (preprocess_physical_lines src) = Inl e"
    by (cases "lex (preprocess_physical_lines src)") (simp_all add: translate_file_def Let_def)
  show c: "isl (lex s) \<longleftrightarrow> arrow_scan (code_only s)" for s
    unfolding lex_def by (rule lex_loop_exit_iff)
  have d: "exit_code e' = 2" for e'
    by (cases e') (simp add: exit_code_def)
  have "(\<exists>e. translate_file known src = Inl e) \<longleftrightarrow> isl (lex (preprocess_physical_lines src))"
    by (cases "lex (preprocess_physical_lines src)") (simp_all add: translate_file_def Let_def)
  with c [of "preprocess_physical_lines src"] d
  show "(\<exists>e. translate_file known src = Inl e \<and> exit_code e = 2) \<longleftrightarrow>
      arrow_scan (code_only (preprocess_physical_lines src))"
    by simp
qed

lemma arrow_examples:
  "arrow_scan (code_only (preprocess_physical_lines ''a->b'')) \<and>
   \<not> arrow_scan (code_only (preprocess_physical_lines
        (''x /* a->b */ y // p->q'' @ [LF] @ [DQ] @ ''->'' @ [DQ]))) \<and>
   lex (preprocess_physical_lines ''a->b'') = Inl (Arrow_Not_Allowed 1 2)"
  by code_simp

theorem arrow_rejection_witness:
  "(\<exists>e. translate_file builtin_types ''a->b'' = Inl e \<and> exit_code e = 2) \<and>
   translate_file builtin_types ''a->b'' = Inl (Arrow_Not_Allowed 1 2) \<and>
   \<not> (\<exists>e. translate_file builtin_types
          (''x /* a->b */ y // p->q'' @ [LF] @ [DQ] @ ''->'' @ [DQ]) = Inl e \<and> exit_code e = 2)"
  using arrow_rejection [of builtin_types "''a->b''" "Arrow_Not_Allowed 1 2"]
    arrow_rejection [of builtin_types "''x /* a->b */ y // p->q'' @ [LF] @ [DQ] @ ''->'' @ [DQ]"]
    arrow_examples
  by blast

text \<open>
  The two-character sequence \<open>->\<close> outside comments and string literals does not
  always end the translation: \<open>a-->b\<close> is lexed as \<open>a\<close>, \<open>--\<close>, \<open>>\<close>, \<open>b\<close>, and a
  preprocessor line is one token whatever it holds. And an input that holds no
  \<open>->\<close> can end it: the normalizer splices \<open>-\<close>, backslash, newline, \<open>>\<close> into
  \<open>->\<close>.
\<close>

theorem arrow_sequence_not_rejected:
  "''a-->b'' = ''a-'' @ ''->'' @ ''b'' \<and>
   map_sum id (map ttext) (lex ''a-->b'') = Inr [''a'', ''--'', ''>'', ''b''] \<and>
   translate_file builtin_types ''a-->b'' = Inr (Some (''a -- > b;'' @ [LF], builtin_types)) \<and>
   translate_file builtin_types (''#define P(s) s->x'' @ [LF]) =
     Inr (Some (''#define P(s) s->x'' @ [LF], builtin_types)) \<and>
   translate_file builtin_types [CHR ''-'', BSL, LF, CHR ''>''] = Inl (Arrow_Not_Allowed 1 1)"
  by code_simp


end
